theory Spec2Isabelle
  imports Main
begin

section \<open>Data model (types.ts)\<close>

text \<open>
  Coordinates are JavaScript numbers; all values the server produces are integers, and
  they can leave the grid on the negative side, so they are \<open>int\<close>. The fields of
  \<open>Position\<close> are called \<open>px\<close> and \<open>py\<close> (\<open>x\<close> and \<open>y\<close> in the source).
\<close>

record Position =
  px :: int
  py :: int

text \<open>\<open>MazeGrid = MazeCell[][]\<close>, indexed \<open>grid[y][x]\<close>; cell values 0 (wall), 1 (path), 2 (exit).\<close>

type_synonym MazeGrid = "int list list"

record MazeMetadata =
  mgrid :: MazeGrid
  mwidth :: int
  mheight :: int
  mstart :: Position
  mexit :: Position

datatype GamePhase = WAITING | COUNTDOWN | PLAYING | FINISHED

record PlayerGameState =
  pclientId :: string
  pname :: string
  position :: Position
  targetPosition :: "Position option"
  movementEndsAt :: "int option"

record GameState =
  lobbyCode :: string
  maze :: MazeMetadata
  phase :: GamePhase
  players :: "string \<rightharpoonup> PlayerGameState"
  startedAt :: "int option"
  winnerId :: "string option"
  allowReconnectUntil :: "int option"

record MoveRequest =
  direction :: string

record MoveResult =
  rposition :: Position
  durationMs :: int

text \<open>
  The named failures of the lobby manager and the game engine (\<open>throw new Error('...')\<close>),
  and the \<open>TypeError\<close> the runtime raises when a property of \<open>undefined\<close> is read or
  written.
\<close>

datatype error =
    GAME_NOT_FOUND | GAME_NOT_READY | PLAYER_NOT_FOUND | INVALID_MOVE
  | LOBBY_NOT_FOUND | ALREADY_IN_LOBBY | LOBBY_FULL | NOT_LEADER | INVALID_SIZE
  | NOT_IN_LOBBY | CODE_SPACE_EXHAUSTED | TypeError

section \<open>Movement resolution (game.ts)\<close>

datatype Direction = UP | DOWN | LEFT | RIGHT

text \<open>\<open>directionVectors[d]\<close> as the pair \<open>(dx, dy)\<close>.\<close>

fun directionVectors :: "Direction \<Rightarrow> int \<times> int" where
  "directionVectors UP = (0, -1)"
| "directionVectors DOWN = (0, 1)"
| "directionVectors LEFT = (-1, 0)"
| "directionVectors RIGHT = (1, 0)"

text \<open>
  \<open>grid[cy][cx]\<close> read as a value: \<open>None\<close> stands for \<open>undefined\<close>, which is what
  an index outside the row gives (and what \<open>grid[cy]?.[cx]\<close> gives outside the grid).
\<close>

definition cellAt :: "MazeGrid \<Rightarrow> int \<Rightarrow> int \<Rightarrow> int option" where
  "cellAt g cy cx =
     (if 0 \<le> cy \<and> cy < int (length g)
      then (if 0 \<le> cx \<and> cx < int (length (g ! nat cy))
            then Some (g ! nat cy ! nat cx) else None)
      else None)"

definition isWalkable :: "int option \<Rightarrow> bool" where
  "isWalkable v = (v = Some 1 \<or> v = Some 2)"

text \<open>One round of the loop of \<open>countOpenNeighbors\<close>: is the neighbour in direction \<open>d\<close> open?\<close>

definition openNeighbor :: "MazeGrid \<Rightarrow> Position \<Rightarrow> Direction \<Rightarrow> bool" where
  "openNeighbor g p d =
     (let (dx, dy) = directionVectors d; nx = px p + dx; ny = py p + dy in
      if ny < 0 \<or> ny \<ge> int (length g) then False
      else if nx < 0 \<or> nx \<ge> int (length (g ! 0)) then False
      else isWalkable (cellAt g ny nx))"

definition countOpenNeighbors :: "MazeGrid \<Rightarrow> Position \<Rightarrow> nat" where
  "countOpenNeighbors g p = length (filter (openNeighbor g p) [UP, DOWN, LEFT, RIGHT])"

text \<open>
  The \<open>while\<close> loop of \<open>moveToNextJunction\<close>, from the state \<open>(current, steps)\<close>; each
  \<open>break\<close> returns the state it leaves the loop with.
\<close>

function moveLoop :: "MazeGrid \<Rightarrow> int \<Rightarrow> int \<Rightarrow> Position \<Rightarrow> nat \<Rightarrow> Position \<times> nat" where
  "moveLoop g dx dy current steps =
     (if steps < length g * length (g ! 0) then
        (let next = \<lparr>px = px current + dx, py = py current + dy\<rparr> in
         if py next < 0 \<or> py next \<ge> int (length g) then (current, steps)
         else if px next < 0 \<or> px next \<ge> int (length (g ! 0)) then (current, steps)
         else if \<not> isWalkable (cellAt g (py next) (px next)) then (current, steps)
         else if cellAt g (py next) (px next) = Some 2 then (next, steps + 1)
         else if countOpenNeighbors g next \<ge> 3 then (next, steps + 1)
         else moveLoop g dx dy next (steps + 1))
      else (current, steps))"
  by pat_completeness auto
termination
  by (relation "measure (\<lambda>(g, dx, dy, current, steps). length g * length (g ! 0) - steps)") auto

declare moveLoop.simps [simp del]

text \<open>
  \<open>moveToNextJunction\<close>. On an empty grid the loop condition reads \<open>grid[0].length\<close> of
  \<open>undefined\<close>, a \<open>TypeError\<close>.
\<close>

definition moveToNextJunction :: "MazeGrid \<Rightarrow> Position \<Rightarrow> Direction \<Rightarrow> error + (Position \<times> nat)" where
  "moveToNextJunction g start d =
     (if g = [] then Inl TypeError
      else (let (dx, dy) = directionVectors d;
                (current, steps) = moveLoop g dx dy start 0
            in if steps = 0 then Inl INVALID_MOVE else Inr (current, steps)))"

text \<open>
  \<open>move.direction.toUpperCase()\<close> on the ASCII letters, and the lookup
  \<open>Object.hasOwn(directionVectors, direction)\<close>.
\<close>

definition upperChar :: "char \<Rightarrow> char" where
  "upperChar c =
     (case map_of (zip ''abcdefghijklmnopqrstuvwxyz'' ''ABCDEFGHIJKLMNOPQRSTUVWXYZ'') c of
        Some u \<Rightarrow> u | None \<Rightarrow> c)"

definition toUpperCase :: "string \<Rightarrow> string" where
  "toUpperCase s = map upperChar s"

definition ownDirection :: "string \<Rightarrow> Direction option" where
  "ownDirection s =
     (if s = ''UP'' then Some UP
      else if s = ''DOWN'' then Some DOWN
      else if s = ''LEFT'' then Some LEFT
      else if s = ''RIGHT'' then Some RIGHT
      else None)"

text \<open>
  \<open>handleMove\<close> on the store \<open>games\<close>. \<open>now\<close> is the value of \<open>Date.now()\<close> and \<open>speed\<close>
  the configured \<open>MOVEMENT_SPEED_MS_PER_STEP\<close>. The function returns what the call returns
  or throws, together with the store as the call leaves it.
\<close>

definition handleMove ::
  "(string \<rightharpoonup> GameState) \<Rightarrow> int \<Rightarrow> int \<Rightarrow> string \<Rightarrow> string \<Rightarrow> MoveRequest
     \<Rightarrow> (error + MoveResult) \<times> (string \<rightharpoonup> GameState)" where
  "handleMove games speed now code cid move =
     (case games code of
        None \<Rightarrow> (Inl GAME_NOT_FOUND, games)
      | Some game \<Rightarrow>
          if phase game \<noteq> PLAYING then (Inl GAME_NOT_READY, games)
          else (case players game cid of
            None \<Rightarrow> (Inl PLAYER_NOT_FOUND, games)
          | Some player \<Rightarrow>
              (case ownDirection (toUpperCase (direction move)) of
                 None \<Rightarrow> (Inl INVALID_MOVE, games)
               | Some d \<Rightarrow>
                   (case moveToNextJunction (mgrid (maze game)) (position player) d of
                      Inl e \<Rightarrow> (Inl e, games)
                    | Inr (pos, steps) \<Rightarrow>
                        (let duration = int steps * speed;
                             endsAt = now + duration;
                             player' = player\<lparr>position := pos, targetPosition := Some pos,
                                              movementEndsAt := Some endsAt\<rparr>;
                             game1 = game\<lparr>players := (players game)(cid \<mapsto> player')\<rparr>;
                             game2 = (if cellAt (mgrid (maze game)) (py pos) (px pos) = Some 2
                                      then game1\<lparr>phase := FINISHED, winnerId := Some cid\<rparr>
                                      else game1)
                         in (Inr \<lparr>rposition = pos, durationMs = duration\<rparr>,
                             games(code \<mapsto> game2)))))))"


subsection \<open>Vocabulary for the glide\<close>

text \<open>The cell \<open>k\<close> steps away from \<open>p\<close> along \<open>(dx, dy)\<close>.\<close>

definition stepN :: "Position \<Rightarrow> int \<Rightarrow> int \<Rightarrow> nat \<Rightarrow> Position" where
  "stepN p dx dy k = \<lparr>px = px p + int k * dx, py = py p + int k * dy\<rparr>"

text \<open>
  The three tests a next cell has to pass in \<open>moveToNextJunction\<close> before it is
  entered: inside the rows, inside the columns of row 0, and walkable.
\<close>

definition canEnter :: "MazeGrid \<Rightarrow> Position \<Rightarrow> bool" where
  "canEnter g p =
     (0 \<le> py p \<and> py p < int (length g) \<and> 0 \<le> px p \<and> px p < int (length (g ! 0))
      \<and> isWalkable (cellAt g (py p) (px p)))"

definition isExit :: "MazeGrid \<Rightarrow> Position \<Rightarrow> bool" where
  "isExit g p = (cellAt g (py p) (px p) = Some 2)"

subsection \<open>A small game used for concrete runs\<close>

definition demoGrid :: MazeGrid where
  "demoGrid = [[0,0,0,0,0],
               [0,1,1,1,0],
               [0,0,0,1,0],
               [0,0,0,2,0]]"

definition demoPlayer :: "string \<Rightarrow> Position \<Rightarrow> PlayerGameState" where
  "demoPlayer cid p =
     \<lparr>pclientId = cid, pname = cid, position = p, targetPosition = None, movementEndsAt = None\<rparr>"

definition demoGame :: "GamePhase \<Rightarrow> Position \<Rightarrow> GameState" where
  "demoGame ph p =
     \<lparr>lobbyCode = ''1234'',
      maze = \<lparr>mgrid = demoGrid, mwidth = 5, mheight = 4,
               mstart = \<lparr>px = 1, py = 1\<rparr>, mexit = \<lparr>px = 3, py = 3\<rparr>\<rparr>,
      phase = ph,
      players = [''alice'' \<mapsto> demoPlayer ''alice'' p, ''bob'' \<mapsto> demoPlayer ''bob'' \<lparr>px = 1, py = 1\<rparr>],
      startedAt = None, winnerId = None, allowReconnectUntil = None\<rparr>"

definition demoGames :: "GamePhase \<Rightarrow> Position \<Rightarrow> (string \<rightharpoonup> GameState)" where
  "demoGames ph p = [''1234'' \<mapsto> demoGame ph p]"

section \<open>Randomness\<close>

text \<open>
  \<open>Math.random()\<close> is an oracle: a sequence of draws and the number of draws consumed so
  far. \<open>Math.floor(Math.random() * n)\<close> is some integer of \<open>[0, n)\<close> for \<open>n > 0\<close>; the draw
  is reduced modulo \<open>n\<close>, so every such integer is the outcome for some oracle and every
  oracle gives such an integer.
\<close>

type_synonym rng = "(nat \<Rightarrow> nat) \<times> nat"

definition randomBelow :: "nat \<Rightarrow> rng \<Rightarrow> nat \<times> rng" where
  "randomBelow n r = (fst r (snd r) mod n, (fst r, Suc (snd r)))"

section \<open>Lobby manager (lobby.ts)\<close>

datatype LobbyStatus = OPEN | STARTING | IN_GAME

record LobbyPlayer =
  clientId :: string
  lname :: string
  acceptedGame :: bool

record LobbyState =
  lcode :: string
  leaderId :: string
  createdAt :: int
  lplayers :: "LobbyPlayer list"
  selectedMazeSize :: int
  status :: LobbyStatus

definition LOBBY_CODE_LENGTH :: nat where "LOBBY_CODE_LENGTH = 4"
definition MAX_PLAYERS :: nat where "MAX_PLAYERS = 2"
definition LOBBY_TTL_MS :: int where "LOBBY_TTL_MS = 60 * 60 * 1000"

definition mazeSizeValues :: "int list" where
  "mazeSizeValues = [10, 20, 30, 40, 50]"

text \<open>\<open>Array.from({ length: n }, randomDigit).join('')\<close>: \<open>n\<close> decimal digits.\<close>

fun randomDigits :: "nat \<Rightarrow> rng \<Rightarrow> string \<times> rng" where
  "randomDigits 0 r = ([], r)"
| "randomDigits (Suc n) r =
     (let (d, r1) = randomBelow 10 r; (ds, r2) = randomDigits n r1
      in (char_of (48 + d) # ds, r2))"

function generateLobbyCodeFrom ::
  "(string \<rightharpoonup> LobbyState) \<Rightarrow> nat \<Rightarrow> rng \<Rightarrow> error + string" where
  "generateLobbyCodeFrom lobbies attempts r =
     (if attempts < 10000 then
        (let (c, r1) = randomDigits LOBBY_CODE_LENGTH r in
         if lobbies c = None then Inr c
         else generateLobbyCodeFrom lobbies (attempts + 1) r1)
      else Inl CODE_SPACE_EXHAUSTED)"
  by pat_completeness auto
termination
  by (relation "measure (\<lambda>(lobbies, attempts, r). 10000 - attempts)") auto

declare generateLobbyCodeFrom.simps [simp del]

definition generateLobbyCode :: "(string \<rightharpoonup> LobbyState) \<Rightarrow> rng \<Rightarrow> error + string" where
  "generateLobbyCode lobbies r = generateLobbyCodeFrom lobbies 0 r"

definition getLobby :: "(string \<rightharpoonup> LobbyState) \<Rightarrow> string \<Rightarrow> LobbyState option" where
  "getLobby lobbies c = lobbies c"

text \<open>
  Every operation returns what the call returns or throws, together with the store of
  lobbies as the call leaves it. \<open>now\<close> is \<open>Date.now()\<close>.
\<close>

definition createLobby ::
  "(string \<rightharpoonup> LobbyState) \<Rightarrow> rng \<Rightarrow> int \<Rightarrow> string \<Rightarrow> string
     \<Rightarrow> (error + LobbyState) \<times> (string \<rightharpoonup> LobbyState)" where
  "createLobby lobbies r now lid leaderName =
     (case generateLobbyCode lobbies r of
        Inl e \<Rightarrow> (Inl e, lobbies)
      | Inr c \<Rightarrow>
          (let player = \<lparr>clientId = lid, lname = leaderName, acceptedGame = False\<rparr>;
               lobby = \<lparr>lcode = c, leaderId = lid, createdAt = now, lplayers = [player],
                        selectedMazeSize = 10, status = OPEN\<rparr>
           in (Inr lobby, lobbies(c \<mapsto> lobby))))"

definition joinLobby ::
  "(string \<rightharpoonup> LobbyState) \<Rightarrow> string \<Rightarrow> string \<Rightarrow> string
     \<Rightarrow> (error + LobbyState) \<times> (string \<rightharpoonup> LobbyState)" where
  "joinLobby lobbies c cid nm =
     (case lobbies c of
        None \<Rightarrow> (Inl LOBBY_NOT_FOUND, lobbies)
      | Some lobby \<Rightarrow>
          if find (\<lambda>p. clientId p = cid) (lplayers lobby) \<noteq> None
          then (Inl ALREADY_IN_LOBBY, lobbies)
          else if length (lplayers lobby) \<ge> MAX_PLAYERS then (Inl LOBBY_FULL, lobbies)
          else
            (let player = \<lparr>clientId = cid, lname = nm, acceptedGame = False\<rparr>;
                 lobby1 = lobby\<lparr>lplayers := lplayers lobby @ [player]\<rparr>;
                 lobby2 = lobby1\<lparr>status := (if length (lplayers lobby1) = MAX_PLAYERS
                                               then OPEN else status lobby1)\<rparr>
             in (Inr lobby2, lobbies(c \<mapsto> lobby2))))"

definition leaveLobby ::
  "(string \<rightharpoonup> LobbyState) \<Rightarrow> string \<Rightarrow> string
     \<Rightarrow> LobbyState option \<times> (string \<rightharpoonup> LobbyState)" where
  "leaveLobby lobbies c cid =
     (case lobbies c of
        None \<Rightarrow> (None, lobbies)
      | Some lobby \<Rightarrow>
          (let lobby1 = lobby\<lparr>lplayers := filter (\<lambda>player. clientId player \<noteq> cid) (lplayers lobby)\<rparr>
           in if length (lplayers lobby1) = 0 then (None, lobbies(c := None))
              else
                (let lobby2 = (if find (\<lambda>player. clientId player = leaderId lobby1) (lplayers lobby1) = None
                               then lobby1\<lparr>leaderId := clientId (lplayers lobby1 ! 0)\<rparr>
                               else lobby1);
                     lobby3 = lobby2\<lparr>status := OPEN\<rparr>
                 in (Some lobby3, lobbies(c \<mapsto> lobby3)))))"

definition setMazeSize ::
  "(string \<rightharpoonup> LobbyState) \<Rightarrow> string \<Rightarrow> string \<Rightarrow> int
     \<Rightarrow> (error + LobbyState) \<times> (string \<rightharpoonup> LobbyState)" where
  "setMazeSize lobbies c lid sz =
     (case lobbies c of
        None \<Rightarrow> (Inl LOBBY_NOT_FOUND, lobbies)
      | Some lobby \<Rightarrow>
          if leaderId lobby \<noteq> lid then (Inl NOT_LEADER, lobbies)
          else if sz \<notin> set mazeSizeValues then (Inl INVALID_SIZE, lobbies)
          else (let lobby1 = lobby\<lparr>selectedMazeSize := sz\<rparr>
                in (Inr lobby1, lobbies(c \<mapsto> lobby1))))"

text \<open>
  \<open>const p = xs.find(P); if (p) p.field = v\<close>: the first element that satisfies \<open>P\<close>
  is changed in place.
\<close>

fun updateFirst :: "('a \<Rightarrow> bool) \<Rightarrow> ('a \<Rightarrow> 'a) \<Rightarrow> 'a list \<Rightarrow> 'a list" where
  "updateFirst P f [] = []"
| "updateFirst P f (p # ps) = (if P p then f p # ps else p # updateFirst P f ps)"

definition markAcceptGame ::
  "(string \<rightharpoonup> LobbyState) \<Rightarrow> string \<Rightarrow> string \<Rightarrow> bool
     \<Rightarrow> (error + LobbyState) \<times> (string \<rightharpoonup> LobbyState)" where
  "markAcceptGame lobbies c cid accepted =
     (case lobbies c of
        None \<Rightarrow> (Inl LOBBY_NOT_FOUND, lobbies)
      | Some lobby \<Rightarrow>
          if find (\<lambda>p. clientId p = cid) (lplayers lobby) = None then (Inl NOT_IN_LOBBY, lobbies)
          else (let lobby1 = lobby\<lparr>lplayers :=
                       updateFirst (\<lambda>p. clientId p = cid) (\<lambda>p. p\<lparr>acceptedGame := accepted\<rparr>)
                         (lplayers lobby)\<rparr>
                in (Inr lobby1, lobbies(c \<mapsto> lobby1))))"

definition resetAcceptances ::
  "(string \<rightharpoonup> LobbyState) \<Rightarrow> string \<Rightarrow> LobbyState option \<times> (string \<rightharpoonup> LobbyState)" where
  "resetAcceptances lobbies c =
     (case lobbies c of
        None \<Rightarrow> (None, lobbies)
      | Some lobby \<Rightarrow>
          (let lobby1 = lobby\<lparr>lplayers := map (\<lambda>player. player\<lparr>acceptedGame := False\<rparr>) (lplayers lobby)\<rparr>
           in (Some lobby1, lobbies(c \<mapsto> lobby1))))"

definition startGame ::
  "(string \<rightharpoonup> LobbyState) \<Rightarrow> string \<Rightarrow> (error + LobbyState) \<times> (string \<rightharpoonup> LobbyState)" where
  "startGame lobbies c =
     (case lobbies c of
        None \<Rightarrow> (Inl LOBBY_NOT_FOUND, lobbies)
      | Some lobby \<Rightarrow>
          (let lobby1 = lobby\<lparr>status := STARTING\<rparr> in (Inr lobby1, lobbies(c \<mapsto> lobby1))))"

definition finishGame ::
  "(string \<rightharpoonup> LobbyState) \<Rightarrow> string \<Rightarrow> LobbyState option \<times> (string \<rightharpoonup> LobbyState)" where
  "finishGame lobbies c =
     (case lobbies c of
        None \<Rightarrow> (None, lobbies)
      | Some lobby \<Rightarrow>
          (let lobby1 = lobby\<lparr>status := IN_GAME\<rparr> in (Some lobby1, lobbies(c \<mapsto> lobby1))))"

definition endGame ::
  "(string \<rightharpoonup> LobbyState) \<Rightarrow> string \<Rightarrow> LobbyState option \<times> (string \<rightharpoonup> LobbyState)" where
  "endGame lobbies c =
     (case lobbies c of
        None \<Rightarrow> (None, lobbies)
      | Some lobby \<Rightarrow>
          (let lobbies1 = lobbies(c \<mapsto> lobby\<lparr>status := OPEN\<rparr>);
               lobbies2 = snd (resetAcceptances lobbies1 c)
           in (lobbies2 c, lobbies2)))"

definition cleanupStaleLobbies ::
  "(string \<rightharpoonup> LobbyState) \<Rightarrow> int \<Rightarrow> (string \<rightharpoonup> LobbyState)" where
  "cleanupStaleLobbies lobbies now =
     (\<lambda>c. case lobbies c of
             None \<Rightarrow> None
           | Some lobby \<Rightarrow>
               if now - createdAt lobby > LOBBY_TTL_MS \<or> length (lplayers lobby) = 0
               then None else Some lobby)"

subsection \<open>The start-game handler of the orchestrator (server.ts)\<close>

text \<open>
  What \<open>handleStartGame\<close> sends: an error to the requesting socket, or a lobby snapshot
  broadcast under an action. A failure that escapes the handler is \<open>Thrown\<close>.
\<close>

datatype packet =
    ErrorPacket string "string option"
  | LobbyPacket string string LobbyState
  | Thrown error

text \<open>
  \<open>handleStartGame(context, socket)\<close> with \<open>context.lobbyCode\<close> and \<open>context.clientId\<close>.
  After its guards it calls \<open>startGame(lobby.code)\<close> and \<open>resetAcceptances(lobby.code)\<close>,
  then sets \<open>acceptedGame\<close> of the leader found in the players of the lobby it looked up.
\<close>

definition handleStartGame ::
  "(string \<rightharpoonup> LobbyState) \<Rightarrow> string option \<Rightarrow> string option
     \<Rightarrow> packet list \<times> (string \<rightharpoonup> LobbyState)" where
  "handleStartGame lobbies ctxLobbyCode ctxClientId =
     (case ctxLobbyCode of
        None \<Rightarrow> ([ErrorPacket ''Not in a lobby'' None], lobbies)
      | Some c \<Rightarrow>
          (case getLobby lobbies c of
             None \<Rightarrow> ([ErrorPacket ''Lobby not found'' (Some ''LOBBY_NOT_FOUND'')], lobbies)
           | Some lobby \<Rightarrow>
               if Some (leaderId lobby) \<noteq> ctxClientId
               then ([ErrorPacket ''Only leader can start game'' (Some ''NOT_LEADER'')], lobbies)
               else if length (lplayers lobby) < 2
               then ([ErrorPacket ''Need two players to start'' None], lobbies)
               else
                 (case startGame lobbies (lcode lobby) of
                    (Inl e, lobbies1) \<Rightarrow> ([Thrown e], lobbies1)
                  | (Inr _, lobbies1) \<Rightarrow>
                      (let lobbies2 = snd (resetAcceptances lobbies1 (lcode lobby)) in
                       case lobbies2 c of
                         None \<Rightarrow> ([], lobbies2)
                       | Some lobbyA \<Rightarrow>
                           (let lobbyB = lobbyA\<lparr>lplayers :=
                                  updateFirst (\<lambda>player. clientId player = leaderId lobbyA)
                                    (\<lambda>player. player\<lparr>acceptedGame := True\<rparr>) (lplayers lobbyA)\<rparr>
                            in ([LobbyPacket (lcode lobbyB) ''START_GAME'' lobbyB,
                                 LobbyPacket (lcode lobbyB) ''LOBBY_UPDATE'' lobbyB],
                                lobbies2(c \<mapsto> lobbyB)))))))"

text \<open>
  The other writes of the orchestrator to a stored lobby: \<open>lobby.status = 'OPEN'\<close> (when a
  player declines, and in \<open>handleRestart\<close>) and \<open>leader.acceptedGame = true\<close> for the leader
  found in the lobby's players (in \<open>handleRestart\<close>).
\<close>

definition writeStatus ::
  "(string \<rightharpoonup> LobbyState) \<Rightarrow> string \<Rightarrow> LobbyStatus \<Rightarrow> (string \<rightharpoonup> LobbyState)" where
  "writeStatus lobbies c st =
     (case lobbies c of None \<Rightarrow> lobbies | Some lobby \<Rightarrow> lobbies(c \<mapsto> lobby\<lparr>status := st\<rparr>))"

definition writeLeaderAccepted ::
  "(string \<rightharpoonup> LobbyState) \<Rightarrow> string \<Rightarrow> (string \<rightharpoonup> LobbyState)" where
  "writeLeaderAccepted lobbies c =
     (case lobbies c of
        None \<Rightarrow> lobbies
      | Some lobby \<Rightarrow>
          lobbies(c \<mapsto> lobby\<lparr>lplayers :=
                      updateFirst (\<lambda>player. clientId player = leaderId lobby)
                        (\<lambda>player. player\<lparr>acceptedGame := True\<rparr>) (lplayers lobby)\<rparr>))"

subsection \<open>The stores the lobby manager can reach\<close>

text \<open>From the empty store, by the operations of lobby.ts and the writes of the orchestrator.\<close>

inductive reachableLobbies :: "(string \<rightharpoonup> LobbyState) \<Rightarrow> bool" where
  r_init: "reachableLobbies Map.empty"
| r_create: "reachableLobbies s \<Longrightarrow> reachableLobbies (snd (createLobby s r now lid nm))"
| r_join: "reachableLobbies s \<Longrightarrow> reachableLobbies (snd (joinLobby s c cid nm))"
| r_leave: "reachableLobbies s \<Longrightarrow> reachableLobbies (snd (leaveLobby s c cid))"
| r_size: "reachableLobbies s \<Longrightarrow> reachableLobbies (snd (setMazeSize s c lid sz))"
| r_accept: "reachableLobbies s \<Longrightarrow> reachableLobbies (snd (markAcceptGame s c cid accepted))"
| r_reset: "reachableLobbies s \<Longrightarrow> reachableLobbies (snd (resetAcceptances s c))"
| r_start: "reachableLobbies s \<Longrightarrow> reachableLobbies (snd (startGame s c))"
| r_finish: "reachableLobbies s \<Longrightarrow> reachableLobbies (snd (finishGame s c))"
| r_end: "reachableLobbies s \<Longrightarrow> reachableLobbies (snd (endGame s c))"
| r_cleanup: "reachableLobbies s \<Longrightarrow> reachableLobbies (cleanupStaleLobbies s now)"
| r_handleStart: "reachableLobbies s \<Longrightarrow> reachableLobbies (snd (handleStartGame s lc cl))"
| r_writeStatus: "reachableLobbies s \<Longrightarrow> reachableLobbies (writeStatus s c st)"
| r_writeLeader: "reachableLobbies s \<Longrightarrow> reachableLobbies (writeLeaderAccepted s c)"

subsection \<open>A small store of lobbies used for concrete runs\<close>

definition demoLobby :: LobbyState where
  "demoLobby =
     \<lparr>lcode = ''4711'', leaderId = ''alice'', createdAt = 0,
      lplayers = [\<lparr>clientId = ''alice'', lname = ''Alice'', acceptedGame = False\<rparr>,
                  \<lparr>clientId = ''bob'', lname = ''Bob'', acceptedGame = True\<rparr>],
      selectedMazeSize = 10, status = OPEN\<rparr>"

definition demoLobbies :: "string \<rightharpoonup> LobbyState" where
  "demoLobbies = [''4711'' \<mapsto> demoLobby]"

text \<open>
  The invariant of a stored lobby: it has a player, its leader is one of its players, and
  no client is listed twice.
\<close>
definition lobbyInv :: "LobbyState \<Rightarrow> bool" where
  "lobbyInv l = (lplayers l \<noteq> [] \<and> leaderId l \<in> clientId ` set (lplayers l)
                 \<and> distinct (map clientId (lplayers l)))"

definition storeInv :: "(string \<rightharpoonup> LobbyState) \<Rightarrow> bool" where
  "storeInv s = (\<forall>c l. s c = Some l \<longrightarrow> lobbyInv l)"

text \<open>A store reached by \<open>createLobby\<close> and \<open>joinLobby\<close> from the empty one.\<close>

definition demoReached :: "string \<rightharpoonup> LobbyState" where
  "demoReached = snd (joinLobby (snd (createLobby Map.empty (\<lambda>_. 0, 0) 0 ''alice'' ''Alice''))
                        ''0000'' ''bob'' ''Bob'')"

section \<open>Maze generator (maze.ts)\<close>

definition DIRECTIONS :: "(int \<times> int) list" where
  "DIRECTIONS = [(0, -2), (2, 0), (0, 2), (-2, 0)]"

text \<open>
  \<open>shuffle\<close>: the loop \<open>for (i = input.length - 1; i > 0; i -= 1)\<close> swaps \<open>input[i]\<close> with
  \<open>input[j]\<close> for a random \<open>j\<close> of \<open>[0, i]\<close>. \<open>shuffleLoop i\<close> is the loop from index \<open>i\<close> down.
\<close>

fun shuffleLoop :: "nat \<Rightarrow> 'a list \<Rightarrow> rng \<Rightarrow> 'a list \<times> rng" where
  "shuffleLoop 0 input r = (input, r)"
| "shuffleLoop (Suc k) input r =
     (let i = Suc k;
          (j, r1) = randomBelow (i + 1) r;
          temp = input ! i;
          input1 = input[i := input ! j];
          input2 = input1[j := temp]
      in shuffleLoop k input2 r1)"

definition shuffle :: "'a list \<Rightarrow> rng \<Rightarrow> 'a list \<times> rng" where
  "shuffle input r = shuffleLoop (length input - 1) input r"

text \<open>
  The assignment \<open>grid[cy][cx] = v\<close>. A missing row makes it a \<open>TypeError\<close>. A column
  outside the row would grow the row in JavaScript; that is outside this model and is
  reported as \<open>OUT_OF_RANGE_WRITE\<close>. The generator never writes there
  (\<open>generateMaze\<close> is shown to return a maze).
\<close>

datatype fault = Raised error | OUT_OF_RANGE_WRITE

definition setCell :: "MazeGrid \<Rightarrow> int \<Rightarrow> int \<Rightarrow> int \<Rightarrow> fault + MazeGrid" where
  "setCell g cy cx v =
     (if cy < 0 \<or> cy \<ge> int (length g) then Inl (Raised TypeError)
      else if cx < 0 \<or> cx \<ge> int (length (g ! nat cy)) then Inl OUT_OF_RANGE_WRITE
      else Inr (g[nat cy := (g ! nat cy)[nat cx := v]]))"

text \<open>
  \<open>carveMaze\<close> and the \<open>for\<close> loop in its body (\<open>carveDirs\<close>, over the directions still to
  visit). The recursion is bounded by a budget of nested calls: \<open>None\<close> means the budget
  ran out, which \<open>generateMaze\<close> is shown never to meet.
\<close>

fun carveMaze :: "nat \<Rightarrow> MazeGrid \<Rightarrow> int \<Rightarrow> int \<Rightarrow> rng \<Rightarrow> (fault + MazeGrid \<times> rng) option"
  and carveDirs :: "nat \<Rightarrow> (int \<times> int) list \<Rightarrow> MazeGrid \<Rightarrow> int \<Rightarrow> int \<Rightarrow> rng
                     \<Rightarrow> (fault + MazeGrid \<times> rng) option" where
  "carveMaze 0 g x y r = None"
| "carveMaze (Suc fuel) g x y r =
     (case setCell g y x 1 of
        Inl e \<Rightarrow> Some (Inl e)
      | Inr g1 \<Rightarrow> (let (dirs, r1) = shuffle DIRECTIONS r in carveDirs fuel dirs g1 x y r1))"
| "carveDirs fuel [] g x y r = Some (Inr (g, r))"
| "carveDirs fuel ((dx, dy) # rest) g x y r =
     (let nx = x + dx; ny = y + dy in
      if ny \<le> 0 \<or> ny \<ge> int (length g) - 1 \<or> nx \<le> 0 \<or> nx \<ge> int (length (g ! 0)) - 1
      then carveDirs fuel rest g x y r
      else if cellAt g ny nx \<noteq> Some 0 then carveDirs fuel rest g x y r
      else (case setCell g (y + dy div 2) (x + dx div 2) 1 of
              Inl e \<Rightarrow> Some (Inl e)
            | Inr g1 \<Rightarrow>
                (case carveMaze fuel g1 nx ny r of
                   None \<Rightarrow> None
                 | Some (Inl e) \<Rightarrow> Some (Inl e)
                 | Some (Inr (g2, r2)) \<Rightarrow> carveDirs fuel rest g2 x y r2)))"

definition isPath :: "MazeGrid \<Rightarrow> Position \<Rightarrow> bool" where
  "isPath g pos = (cellAt g (py pos) (px pos) = Some 1 \<or> cellAt g (py pos) (px pos) = Some 2)"

definition deltas :: "(int \<times> int) list" where
  "deltas = [(0, -1), (1, 0), (0, 1), (-1, 0)]"

definition neighbors :: "MazeGrid \<Rightarrow> Position \<Rightarrow> Position list" where
  "neighbors g pos =
     concat (map (\<lambda>(dx, dy).
        (let nx = px pos + dx; ny = py pos + dy in
         if ny < 0 \<or> ny \<ge> int (length g) then []
         else if nx < 0 \<or> nx \<ge> int (length (g ! 0)) then []
         else if \<not> isPath g \<lparr>px = nx, py = ny\<rparr> then []
         else [\<lparr>px = nx, py = ny\<rparr>])) deltas)"

text \<open>
  The two scans of \<open>findExit\<close>. The reads are \<open>grid[1][x]\<close>, \<open>grid[maxY - 1][x]\<close>,
  \<open>grid[y][1]\<close> and \<open>grid[y][maxX - 1]\<close>; on the grids \<open>carveMaze\<close> returns, rows 1 and
  \<open>maxY - 1\<close> exist.
\<close>

definition exitsTopBottom :: "MazeGrid \<Rightarrow> int \<Rightarrow> int \<Rightarrow> Position list" where
  "exitsTopBottom g maxX maxY =
     concat (map (\<lambda>x.
        (if cellAt g 1 x = Some 1 then [\<lparr>px = x, py = 0\<rparr>] else [])
        @ (if cellAt g (maxY - 1) x = Some 1 then [\<lparr>px = x, py = maxY\<rparr>] else []))
      [1..maxX - 1])"

definition exitsLeftRight :: "MazeGrid \<Rightarrow> int \<Rightarrow> int \<Rightarrow> Position list" where
  "exitsLeftRight g maxX maxY =
     concat (map (\<lambda>y.
        (if cellAt g y 1 = Some 1 then [\<lparr>px = 0, py = y\<rparr>] else [])
        @ (if cellAt g y (maxX - 1) = Some 1 then [\<lparr>px = maxX, py = y\<rparr>] else []))
      [1..maxY - 1])"

definition exitCandidates :: "MazeGrid \<Rightarrow> Position list" where
  "exitCandidates g =
     (let maxY = int (length g) - 1; maxX = int (length (g ! 0)) - 1
      in exitsTopBottom g maxX maxY @ exitsLeftRight g maxX maxY)"

definition findExit :: "MazeGrid \<Rightarrow> rng \<Rightarrow> Position \<times> rng" where
  "findExit g r =
     (let maxY = int (length g) - 1; maxX = int (length (g ! 0)) - 1;
          exits0 = exitCandidates g;
          exits = (if length exits0 = 0 then exits0 @ [\<lparr>px = maxX, py = maxY - 1\<rparr>] else exits0);
          (k, r1) = randomBelow (length exits) r
      in (exits ! k, r1))"

text \<open>The cells a grid lets a player stand on.\<close>

definition walkableCell :: "MazeGrid \<Rightarrow> Position \<Rightarrow> bool" where
  "walkableCell g p = isWalkable (cellAt g (py p) (px p))"

definition walkSet :: "MazeGrid \<Rightarrow> Position set" where
  "walkSet g = {p. walkableCell g p}"

text \<open>
  The \<open>while (queue.length > 0)\<close> loop of \<open>computeFarthestPosition\<close>: \<open>visited\<close>, the queue
  of \<open>(pos, dist)\<close> entries and \<open>farthest\<close>.
\<close>

function bfsLoop ::
  "MazeGrid \<Rightarrow> Position set \<Rightarrow> (Position \<times> nat) list \<Rightarrow> Position \<times> nat \<Rightarrow> Position" where
  "bfsLoop g visited [] farthest = fst farthest"
| "bfsLoop g visited (next # queue) farthest =
     (if fst next \<in> visited then bfsLoop g visited queue farthest
      else bfsLoop g (insert (fst next) visited)
             (queue @ map (\<lambda>neighbor. (neighbor, snd next + 1)) (neighbors g (fst next)))
             (if snd next > snd farthest then next else farthest))"
  by pat_completeness auto
termination
proof (relation "measures [\<lambda>(g, visited, queue, farthest). card ((walkSet g \<union> fst ` set queue) - visited),
                           \<lambda>(g, visited, queue, farthest). length queue]")
  show "wf (measures [\<lambda>(g, visited, queue, farthest). card ((walkSet g \<union> fst ` set queue) - visited),
                      \<lambda>(g, visited, queue, farthest). length queue])"
    by simp
next
  fix g :: MazeGrid and visited :: "Position set" and nxt :: "Position \<times> nat"
    and queue :: "(Position \<times> nat) list" and farthest :: "Position \<times> nat"
  assume "fst nxt \<in> visited"
  then have "(walkSet g \<union> fst ` set queue) - visited = (walkSet g \<union> fst ` set (nxt # queue)) - visited"
    by auto
  then show "((g, visited, queue, farthest), (g, visited, nxt # queue, farthest))
        \<in> measures [\<lambda>(g, visited, queue, farthest). card ((walkSet g \<union> fst ` set queue) - visited),
                     \<lambda>(g, visited, queue, farthest). length queue]"
    by simp
next
  fix g :: MazeGrid and visited :: "Position set" and nxt :: "Position \<times> nat"
    and queue :: "(Position \<times> nat) list" and farthest :: "Position \<times> nat"
  assume nv: "fst nxt \<notin> visited"
  let ?box = "(\<lambda>(cx, cy). \<lparr>px = cx, py = cy\<rparr>) `
                ({0..<int (Max (insert 0 (length ` set g)))} \<times> {0..<int (length g)})"
  have "walkSet g \<subseteq> ?box"
  proof
    fix p assume "p \<in> walkSet g"
    then have c: "cellAt g (py p) (px p) \<noteq> None"
      by (auto simp: walkSet_def walkableCell_def isWalkable_def)
    then have y: "0 \<le> py p" "py p < int (length g)"
      by (auto simp: cellAt_def split: if_splits)
    with c have x: "0 \<le> px p" "px p < int (length (g ! nat (py p)))"
      by (auto simp: cellAt_def split: if_splits)
    have "length (g ! nat (py p)) \<in> insert 0 (length ` set g)" using y by simp
    then have "length (g ! nat (py p)) \<le> Max (insert 0 (length ` set g))"
      by (intro Max_ge) auto
    with x have "px p < int (Max (insert 0 (length ` set g)))" by linarith
    with x y have "(px p, py p) \<in> {0..<int (Max (insert 0 (length ` set g)))} \<times> {0..<int (length g)}"
      by simp
    then have "(\<lambda>(cx, cy). \<lparr>px = cx, py = cy\<rparr>) (px p, py p) \<in> ?box" by (rule imageI)
    moreover have "\<lparr>px = px p, py = py p\<rparr> = p" by (cases p) simp
    ultimately show "p \<in> ?box" by simp
  qed
  moreover have "finite ?box" by simp
  ultimately have fw: "finite (walkSet g)" by (rule finite_subset)
  have nb: "set (neighbors g (fst nxt)) \<subseteq> walkSet g"
    by (auto simp: neighbors_def deltas_def walkSet_def walkableCell_def isWalkable_def isPath_def
        Let_def split: if_splits)
  let ?old = "(walkSet g \<union> fst ` set (nxt # queue)) - visited"
  let ?new = "(walkSet g \<union> fst ` set (queue @ map (\<lambda>neighbor. (neighbor, snd nxt + 1)) (neighbors g (fst nxt))))
                - insert (fst nxt) visited"
  have fin: "finite ?old" using fw by simp
  have "?new \<subseteq> ?old - {fst nxt}" using nb by (auto simp: image_Un image_image)
  moreover have "fst nxt \<in> ?old" using nv by simp
  ultimately have "?new \<subset> ?old" by blast
  with fin have "card ?new < card ?old" by (rule psubset_card_mono)
  then show "((g, insert (fst nxt) visited,
               queue @ map (\<lambda>neighbor. (neighbor, snd nxt + 1)) (neighbors g (fst nxt)),
               if snd farthest < snd nxt then nxt else farthest),
              (g, visited, nxt # queue, farthest))
        \<in> measures [\<lambda>(g, visited, queue, farthest). card ((walkSet g \<union> fst ` set queue) - visited),
                     \<lambda>(g, visited, queue, farthest). length queue]"
    by simp
qed

declare bfsLoop.simps [simp del]

definition computeFarthestPosition :: "MazeGrid \<Rightarrow> Position \<Rightarrow> Position" where
  "computeFarthestPosition g start = bfsLoop g {} [(start, 0)] (start, 0)"

text \<open>The budget of nested \<open>carveMaze\<close> calls used by \<open>generateMaze\<close>: more than there are cells.\<close>

definition carveFuel :: "MazeGrid \<Rightarrow> nat" where
  "carveFuel g = length g * length (g ! 0) + 1"

definition generateMaze :: "int \<Rightarrow> rng \<Rightarrow> (fault + MazeMetadata) option" where
  "generateMaze sz r =
     (let width = sz * 2 + 1;
          height = sz * 2 + 1;
          grid0 = replicate (nat height) (replicate (nat width) 0)
      in case carveMaze (carveFuel grid0) grid0 1 1 r of
           None \<Rightarrow> None
         | Some (Inl e) \<Rightarrow> Some (Inl e)
         | Some (Inr (grid1, r1)) \<Rightarrow>
             (let (ex, r2) = findExit grid1 r1 in
              case setCell grid1 (py ex) (px ex) 2 of
                Inl e \<Rightarrow> Some (Inl e)
              | Inr grid2 \<Rightarrow>
                  Some (Inr \<lparr>mgrid = grid2, mwidth = width, mheight = height,
                             mstart = computeFarthestPosition grid2 ex, mexit = ex\<rparr>)))"

text \<open>A grid of \<open>h\<close> rows that all have \<open>w\<close> cells; a grid whose cells are 0 or 1.\<close>
definition rect :: "MazeGrid \<Rightarrow> nat \<Rightarrow> nat \<Rightarrow> bool" where
  "rect g h w = (length g = h \<and> (\<forall>i<h. length (g ! i) = w))"

definition bin :: "MazeGrid \<Rightarrow> bool" where
  "bin g = (\<forall>cy cx v. cellAt g cy cx = Some v \<longrightarrow> v = 0 \<or> v = 1)"

text \<open>
  The cells inside the outer ring, which is what the bounds test of \<open>carveMaze\<close> lets
  through, and those of them that are still 0.
\<close>
definition interior :: "nat \<Rightarrow> nat \<Rightarrow> Position \<Rightarrow> bool" where
  "interior h w p = (0 < py p \<and> py p < int h - 1 \<and> 0 < px p \<and> px p < int w - 1)"

definition zeros :: "MazeGrid \<Rightarrow> nat \<Rightarrow> nat \<Rightarrow> Position set" where
  "zeros g h w = {p. interior h w p \<and> cellAt g (py p) (px p) = Some 0}"

text \<open>
  The carving invariant, for a property \<open>Q\<close> of the set of walkable cells: \<open>carveStep\<close> says
  that \<open>Q\<close> survives carving the wall between a carved lattice cell and an uncarved one
  together with that cell; \<open>carveMazeOk\<close> and \<open>carveDirsOk\<close> say that \<open>carveMaze\<close> and its loop
  return a grid, within the budget, and keep \<open>Q\<close>.
\<close>
definition carveStep :: "(Position set \<Rightarrow> bool) \<Rightarrow> nat \<Rightarrow> nat \<Rightarrow> bool" where
  "carveStep Q h w =
     (\<forall>V cur dx dy.
        Q V \<and> cur \<in> V \<and> interior h w cur \<and> odd (px cur) \<and> odd (py cur)
        \<and> (dx, dy) \<in> set DIRECTIONS
        \<and> interior h w \<lparr>px = px cur + dx, py = py cur + dy\<rparr>
        \<and> \<lparr>px = px cur + dx, py = py cur + dy\<rparr> \<notin> V
        \<longrightarrow> Q (insert \<lparr>px = px cur + dx, py = py cur + dy\<rparr>
                 (insert \<lparr>px = px cur + dx div 2, py = py cur + dy div 2\<rparr> V)))"

definition carveMazeOk :: "(Position set \<Rightarrow> bool) \<Rightarrow> nat \<Rightarrow> nat \<Rightarrow> nat \<Rightarrow> bool" where
  "carveMazeOk Q h w fuel =
     (\<forall>g x y r.
        rect g h w \<and> bin g \<and> interior h w \<lparr>px = x, py = y\<rparr> \<and> odd x \<and> odd y
        \<and> cellAt g y x = Some 0 \<and> card (zeros g h w) \<le> fuel
        \<and> Q (insert \<lparr>px = x, py = y\<rparr> (walkSet g))
        \<longrightarrow> (\<exists>g' r'. carveMaze fuel g x y r = Some (Inr (g', r')) \<and> rect g' h w \<and> bin g'
               \<and> insert \<lparr>px = x, py = y\<rparr> (walkSet g) \<subseteq> walkSet g' \<and> Q (walkSet g')))"

definition carveDirsOk :: "(Position set \<Rightarrow> bool) \<Rightarrow> nat \<Rightarrow> nat \<Rightarrow> nat \<Rightarrow> bool" where
  "carveDirsOk Q h w fuel =
     (\<forall>ds g x y r.
        rect g h w \<and> bin g \<and> interior h w \<lparr>px = x, py = y\<rparr> \<and> odd x \<and> odd y
        \<and> \<lparr>px = x, py = y\<rparr> \<in> walkSet g \<and> card (zeros g h w) \<le> fuel
        \<and> set ds \<subseteq> set DIRECTIONS \<and> Q (walkSet g)
        \<longrightarrow> (\<exists>g' r'. carveDirs fuel ds g x y r = Some (Inr (g', r')) \<and> rect g' h w \<and> bin g'
               \<and> walkSet g \<subseteq> walkSet g' \<and> Q (walkSet g')))"

text \<open>
  Paths over a set of cells: \<open>walk V ps\<close> holds when \<open>ps\<close> runs through cells of \<open>V\<close>, each
  4-adjacent to the next; a simple path from \<open>a\<close> to \<open>b\<close> repeats no cell; \<open>V\<close> is a tree when
  any two of its cells are joined by exactly one simple path.
\<close>
definition adjacent :: "Position \<Rightarrow> Position \<Rightarrow> bool" where
  "adjacent p q = (\<bar>px p - px q\<bar> + \<bar>py p - py q\<bar> = 1)"

fun walk :: "Position set \<Rightarrow> Position list \<Rightarrow> bool" where
  "walk V [] = True"
| "walk V [p] = (p \<in> V)"
| "walk V (p # q # ps) = (p \<in> V \<and> adjacent p q \<and> walk V (q # ps))"

definition simplePathIn :: "Position set \<Rightarrow> Position \<Rightarrow> Position \<Rightarrow> Position list \<Rightarrow> bool" where
  "simplePathIn V a b ps = (ps \<noteq> [] \<and> hd ps = a \<and> last ps = b \<and> distinct ps \<and> walk V ps)"

definition treeSet :: "Position set \<Rightarrow> bool" where
  "treeSet V = (\<forall>a\<in>V. \<forall>b\<in>V. \<exists>!ps. simplePathIn V a b ps)"

text \<open>
  What \<open>carveMaze\<close> maintains: the walkable cells form a tree, lie inside the outer ring,
  never have two even coordinates, and a carved wall cell (one even coordinate) has both
  lattice cells it connects carved.
\<close>
definition Good :: "nat \<Rightarrow> nat \<Rightarrow> Position set \<Rightarrow> bool" where
  "Good h w V =
     (treeSet V
      \<and> (\<forall>p\<in>V. interior h w p \<and> (odd (px p) \<or> odd (py p)))
      \<and> (\<forall>p\<in>V. (even (px p) \<longrightarrow> \<lparr>px = px p - 1, py = py p\<rparr> \<in> V \<and> \<lparr>px = px p + 1, py = py p\<rparr> \<in> V)
              \<and> (even (py p) \<longrightarrow> \<lparr>px = px p, py = py p - 1\<rparr> \<in> V \<and> \<lparr>px = px p, py = py p + 1\<rparr> \<in> V)))"

text \<open>
  The outer ring of an \<open>h\<close> by \<open>w\<close> grid, the cell one step inside of a ring cell that is
  not a corner, and the grid \<open>generateMaze\<close> allocates.
\<close>
definition onBorder :: "nat \<Rightarrow> nat \<Rightarrow> Position \<Rightarrow> bool" where
  "onBorder h w p =
     (0 \<le> px p \<and> px p < int w \<and> 0 \<le> py p \<and> py p < int h
      \<and> (px p = 0 \<or> px p = int w - 1 \<or> py p = 0 \<or> py p = int h - 1))"

definition inwardCell :: "nat \<Rightarrow> nat \<Rightarrow> Position \<Rightarrow> Position" where
  "inwardCell h w p =
     (if py p = 0 then \<lparr>px = px p, py = 1\<rparr>
      else if py p = int h - 1 then \<lparr>px = px p, py = int h - 2\<rparr>
      else if px p = 0 then \<lparr>px = 1, py = py p\<rparr>
      else \<lparr>px = int w - 2, py = py p\<rparr>)"

definition emptyGrid :: "int \<Rightarrow> MazeGrid" where
  "emptyGrid sz = replicate (nat (sz * 2 + 1)) (replicate (nat (sz * 2 + 1)) 0)"

section \<open>Game engine: lifecycle (game.ts)\<close>

record PlayerInfo =
  iclientId :: string
  iname :: string

definition RECONNECT_WINDOW_MS :: int where
  "RECONNECT_WINDOW_MS = 30000"

text \<open>
  \<open>createGame\<close>: the \<open>reduce\<close> over the players builds the record of player states, every
  player at a copy of \<open>maze.start\<close>. \<open>None\<close> is passed on from \<open>generateMaze\<close>.
\<close>

definition createGame ::
  "(string \<rightharpoonup> GameState) \<Rightarrow> rng \<Rightarrow> int \<Rightarrow> string \<Rightarrow> int \<Rightarrow> PlayerInfo list
     \<Rightarrow> ((fault + GameState) \<times> (string \<rightharpoonup> GameState)) option" where
  "createGame games r now code sz playerInfos =
     (case generateMaze sz r of
        None \<Rightarrow> None
      | Some (Inl e) \<Rightarrow> Some (Inl e, games)
      | Some (Inr mz) \<Rightarrow>
          (let playerStates =
                 foldl (\<lambda>acc player.
                          acc(iclientId player \<mapsto>
                                \<lparr>pclientId = iclientId player, pname = iname player,
                                 position = mstart mz, targetPosition = None,
                                 movementEndsAt = None\<rparr>))
                       Map.empty playerInfos;
               game = \<lparr>lobbyCode = code, maze = mz, phase = WAITING, players = playerStates,
                       startedAt = None, winnerId = None,
                       allowReconnectUntil = Some (now + RECONNECT_WINDOW_MS)\<rparr>
           in Some (Inr game, games(code \<mapsto> game))))"

definition getGame :: "(string \<rightharpoonup> GameState) \<Rightarrow> string \<Rightarrow> GameState option" where
  "getGame games code = games code"

definition removeGame :: "(string \<rightharpoonup> GameState) \<Rightarrow> string \<Rightarrow> (string \<rightharpoonup> GameState)" where
  "removeGame games code = games(code := None)"

definition startCountdown ::
  "(string \<rightharpoonup> GameState) \<Rightarrow> int \<Rightarrow> string \<Rightarrow> int
     \<Rightarrow> (error + GameState) \<times> (string \<rightharpoonup> GameState)" where
  "startCountdown games now code countdownSeconds =
     (case games code of
        None \<Rightarrow> (Inl GAME_NOT_FOUND, games)
      | Some game \<Rightarrow>
          (let game1 = game\<lparr>phase := COUNTDOWN, startedAt := Some (now + countdownSeconds * 1000)\<rparr>
           in (Inr game1, games(code \<mapsto> game1))))"

text \<open>\<open>beginGame\<close> reads the clock twice: \<open>now\<close> and \<open>now2\<close>.\<close>

definition beginGame ::
  "(string \<rightharpoonup> GameState) \<Rightarrow> int \<Rightarrow> int \<Rightarrow> string
     \<Rightarrow> (error + GameState) \<times> (string \<rightharpoonup> GameState)" where
  "beginGame games now now2 code =
     (case games code of
        None \<Rightarrow> (Inl GAME_NOT_FOUND, games)
      | Some game \<Rightarrow>
          (let game1 = game\<lparr>phase := PLAYING, startedAt := Some now,
                             allowReconnectUntil := Some (now2 + RECONNECT_WINDOW_MS)\<rparr>
           in (Inr game1, games(code \<mapsto> game1))))"

definition markPlayerDisconnected ::
  "(string \<rightharpoonup> GameState) \<Rightarrow> int \<Rightarrow> string \<Rightarrow> string
     \<Rightarrow> GameState option \<times> (string \<rightharpoonup> GameState)" where
  "markPlayerDisconnected games now code cid =
     (case games code of
        None \<Rightarrow> (None, games)
      | Some game \<Rightarrow>
          (case players game cid of
             None \<Rightarrow> (Some game, games)
           | Some player \<Rightarrow>
               (let game1 = game\<lparr>allowReconnectUntil := Some (now + RECONNECT_WINDOW_MS)\<rparr>
                in (Some game1, games(code \<mapsto> game1)))))"

definition markPlayerReconnected ::
  "(string \<rightharpoonup> GameState) \<Rightarrow> int \<Rightarrow> string \<Rightarrow> string
     \<Rightarrow> GameState option \<times> (string \<rightharpoonup> GameState)" where
  "markPlayerReconnected games now code cid =
     (case games code of
        None \<Rightarrow> (None, games)
      | Some game \<Rightarrow>
          (case players game cid of
             None \<Rightarrow> (Some game, games)
           | Some player \<Rightarrow>
               (let game1 = game\<lparr>allowReconnectUntil := Some (now + RECONNECT_WINDOW_MS)\<rparr>
                in (Some game1, games(code \<mapsto> game1)))))"

definition restartGame ::
  "(string \<rightharpoonup> GameState) \<Rightarrow> rng \<Rightarrow> int \<Rightarrow> string \<Rightarrow> int \<Rightarrow> PlayerInfo list
     \<Rightarrow> ((fault + GameState) \<times> (string \<rightharpoonup> GameState)) option" where
  "restartGame games r now code sz playerInfos =
     createGame (removeGame games code) r now code sz playerInfos"

text \<open>\<open>expireOldGames\<close>; \<open>game.allowReconnectUntil &&\<close> holds for a number other than 0.\<close>

definition expireOldGames :: "(string \<rightharpoonup> GameState) \<Rightarrow> int \<Rightarrow> (string \<rightharpoonup> GameState)" where
  "expireOldGames games now =
     (\<lambda>code. case games code of
                None \<Rightarrow> None
              | Some game \<Rightarrow>
                  if phase game = FINISHED
                     \<and> (case allowReconnectUntil game of None \<Rightarrow> False | Some t \<Rightarrow> t \<noteq> 0 \<and> now > t)
                  then None else Some game)"

subsection \<open>The stores the game engine can reach\<close>

inductive reachableGames :: "(string \<rightharpoonup> GameState) \<Rightarrow> bool" where
  g_init: "reachableGames Map.empty"
| g_create: "reachableGames s \<Longrightarrow> createGame s r now code sz infos = Some (res, s')
               \<Longrightarrow> reachableGames s'"
| g_countdown: "reachableGames s \<Longrightarrow> reachableGames (snd (startCountdown s now code secs))"
| g_begin: "reachableGames s \<Longrightarrow> reachableGames (snd (beginGame s now now2 code))"
| g_move: "reachableGames s \<Longrightarrow> reachableGames (snd (handleMove s speed now code cid move))"
| g_disconnected: "reachableGames s \<Longrightarrow> reachableGames (snd (markPlayerDisconnected s now code cid))"
| g_reconnected: "reachableGames s \<Longrightarrow> reachableGames (snd (markPlayerReconnected s now code cid))"
| g_remove: "reachableGames s \<Longrightarrow> reachableGames (removeGame s code)"
| g_restart: "reachableGames s \<Longrightarrow> restartGame s r now code sz infos = Some (res, s')
               \<Longrightarrow> reachableGames s'"
| g_expire: "reachableGames s \<Longrightarrow> reachableGames (expireOldGames s now)"

text \<open>Every player of every stored game stands on a walkable cell of that game's grid.\<close>

definition gameInv :: "GameState \<Rightarrow> bool" where
  "gameInv game =
     (\<forall>cid p. players game cid = Some p \<longrightarrow> walkableCell (mgrid (maze game)) (position p))"

definition gamesInv :: "(string \<rightharpoonup> GameState) \<Rightarrow> bool" where
  "gamesInv s = (\<forall>code game. s code = Some game \<longrightarrow> gameInv game)"

text \<open>A store reached by creating a game of size 1 for two players.\<close>

definition demoInfos :: "PlayerInfo list" where
  "demoInfos = [\<lparr>iclientId = ''alice'', iname = ''Alice''\<rparr>, \<lparr>iclientId = ''bob'', iname = ''Bob''\<rparr>]"

definition demoCreated :: "string \<rightharpoonup> GameState" where
  "demoCreated = (case createGame Map.empty (\<lambda>_. 0, 0) 0 ''1234'' 1 demoInfos of
                    Some (res, s) \<Rightarrow> s | None \<Rightarrow> Map.empty)"

section \<open>The breadth-first search of the specification\<close>

text \<open>
  The reference search the start selection is compared with: a FIFO queue of cells with
  their distance, a cell is marked as seen when it is discovered, and the cells are listed
  with their distance in the order they leave the queue, which is the order of discovery.
  The neighbours of a cell are enumerated by \<open>neighbors\<close>.
\<close>

function specBfs ::
  "MazeGrid \<Rightarrow> Position set \<Rightarrow> (Position \<times> nat) list \<Rightarrow> (Position \<times> nat) list" where
  "specBfs g seen [] = []"
| "specBfs g seen ((p, d) # queue) =
     (let new = filter (\<lambda>n. n \<notin> seen) (neighbors g p)
      in (p, d) # specBfs g (seen \<union> set new) (queue @ map (\<lambda>n. (n, d + 1)) new))"
  by pat_completeness auto
termination
proof (relation "measure (\<lambda>(g, seen, queue). card (walkSet g - seen) + length queue)")
  show "wf (measure (\<lambda>(g, seen, queue). card (walkSet g - seen) + length queue))" by simp
next
  fix g :: MazeGrid and seen :: "Position set" and p :: Position and d :: nat
    and queue :: "(Position \<times> nat) list" and new :: "Position list"
  assume new: "new = filter (\<lambda>n. n \<notin> seen) (neighbors g p)"
  let ?box = "(\<lambda>(cx, cy). \<lparr>px = cx, py = cy\<rparr>) `
                ({0..<int (Max (insert 0 (length ` set g)))} \<times> {0..<int (length g)})"
  have "walkSet g \<subseteq> ?box"
  proof
    fix q assume "q \<in> walkSet g"
    then have c: "cellAt g (py q) (px q) \<noteq> None"
      by (auto simp: walkSet_def walkableCell_def isWalkable_def)
    then have y: "0 \<le> py q" "py q < int (length g)"
      by (auto simp: cellAt_def split: if_splits)
    with c have x: "0 \<le> px q" "px q < int (length (g ! nat (py q)))"
      by (auto simp: cellAt_def split: if_splits)
    have "length (g ! nat (py q)) \<in> insert 0 (length ` set g)" using y by simp
    then have "length (g ! nat (py q)) \<le> Max (insert 0 (length ` set g))"
      by (intro Max_ge) auto
    with x have "px q < int (Max (insert 0 (length ` set g)))" by linarith
    with x y have "(px q, py q) \<in> {0..<int (Max (insert 0 (length ` set g)))} \<times> {0..<int (length g)}"
      by simp
    then have "(\<lambda>(cx, cy). \<lparr>px = cx, py = cy\<rparr>) (px q, py q) \<in> ?box" by (rule imageI)
    moreover have "\<lparr>px = px q, py = py q\<rparr> = q" by (cases q) simp
    ultimately show "q \<in> ?box" by simp
  qed
  moreover have "finite ?box" by simp
  ultimately have fw: "finite (walkSet g)" by (rule finite_subset)
  have nb: "set (neighbors g p) \<subseteq> walkSet g"
    by (auto simp: neighbors_def deltas_def walkSet_def walkableCell_def isWalkable_def isPath_def
        Let_def split: if_splits)
  have dn: "distinct (neighbors g p)"
    by (simp add: neighbors_def deltas_def Let_def)
  have sub: "set new \<subseteq> walkSet g - seen" using nb new by auto
  have dist: "distinct new" using dn new by simp
  have "walkSet g - (seen \<union> set new) = (walkSet g - seen) - set new" by auto
  then have "card (walkSet g - (seen \<union> set new)) = card (walkSet g - seen) - card (set new)"
    using sub fw by (simp add: card_Diff_subset)
  moreover have "card (set new) = length new" using dist by (rule distinct_card)
  moreover have "card (set new) \<le> card (walkSet g - seen)"
    using sub fw by (intro card_mono) auto
  ultimately have "card (walkSet g - (seen \<union> set new)) + length (queue @ map (\<lambda>n. (n, d + 1)) new)
      < card (walkSet g - seen) + length ((p, d) # queue)"
    by simp
  then show "((g, seen \<union> set new, queue @ map (\<lambda>n. (n, d + 1)) new), (g, seen, (p, d) # queue))
      \<in> measure (\<lambda>(g, seen, queue). card (walkSet g - seen) + length queue)"
    by simp
qed

declare specBfs.simps [simp del]

definition bfsDiscovery :: "MazeGrid \<Rightarrow> Position \<Rightarrow> (Position \<times> nat) list" where
  "bfsDiscovery g s = specBfs g {s} [(s, 0)]"

text \<open>
  Vocabulary for comparing the two searches: the queue of \<open>computeFarthestPosition\<close> without
  the entries it will skip, and its rule for \<open>farthest\<close> run over a list of visits.
\<close>

fun dedupe :: "Position set \<Rightarrow> (Position \<times> nat) list \<Rightarrow> (Position \<times> nat) list" where
  "dedupe V [] = []"
| "dedupe V (x # xs) = (if fst x \<in> V then dedupe V xs else x # dedupe (insert (fst x) V) xs)"

fun firstMax :: "Position \<times> nat \<Rightarrow> (Position \<times> nat) list \<Rightarrow> Position \<times> nat" where
  "firstMax best [] = best"
| "firstMax best (x # xs) = firstMax (if snd x > snd best then x else best) xs"

section \<open>Properties of the movement resolution\<close>

lemma stepN_0: "stepN p dx dy 0 = p" by (simp add: stepN_def)
lemma stepN_Suc: "stepN \<lparr>px = px p + dx, py = py p + dy\<rparr> dx dy k = stepN p dx dy (Suc k)"
  by (simp add: stepN_def algebra_simps)

lemma moveLoop_spec:
  "moveLoop g dx dy cur steps = (pos, n) \<Longrightarrow>
   \<exists>k. n = steps + k \<and> pos = stepN cur dx dy k
     \<and> (\<forall>i. 1 \<le> i \<and> i \<le> k \<longrightarrow> canEnter g (stepN cur dx dy i))
     \<and> (\<forall>i. 1 \<le> i \<and> i < k \<longrightarrow> \<not> isExit g (stepN cur dx dy i) \<and> countOpenNeighbors g (stepN cur dx dy i) < 3)
     \<and> ((1 \<le> k \<and> (isExit g pos \<or> 3 \<le> countOpenNeighbors g pos))
         \<or> \<not> canEnter g (stepN cur dx dy (Suc k))
         \<or> length g * length (g ! 0) \<le> n)"
proof (induction g dx dy cur steps arbitrary: pos n rule: moveLoop.induct)
  case (1 g dx dy current steps)
  let ?next = "\<lparr>px = px current + dx, py = py current + dy\<rparr>"
  have next1: "?next = stepN current dx dy 1" by (simp add: stepN_def)
  show ?case
  proof (cases "steps < length g * length (g ! 0)")
    case False
    with "1.prems" have "pos = current" "n = steps" by (simp_all add: moveLoop.simps)
    with False show ?thesis by (intro exI[of _ 0]) (simp add: stepN_0)
  next
    case cap: True
    show ?thesis
    proof (cases "canEnter g ?next")
      case False
      with "1.prems" cap have "pos = current" "n = steps"
        by (auto simp: moveLoop.simps[of g dx dy current steps] canEnter_def Let_def split: if_splits)
      with False show ?thesis by (intro exI[of _ 0]) (simp add: stepN_0 next1)
    next
      case enter: True
      show ?thesis
      proof (cases "isExit g ?next \<or> 3 \<le> countOpenNeighbors g ?next")
        case True
        with "1.prems" cap enter have "pos = ?next" "n = steps + 1"
          by (auto simp: moveLoop.simps[of g dx dy current steps] canEnter_def isExit_def Let_def split: if_splits)
        with True enter show ?thesis
          by (intro exI[of _ 1]) (auto simp: next1 le_Suc_eq)
      next
        case False
        with "1.prems" cap enter have rec: "moveLoop g dx dy ?next (steps + 1) = (pos, n)"
          by (auto simp: moveLoop.simps[of g dx dy current steps] canEnter_def isExit_def Let_def split: if_splits)
        have "\<exists>k. n = steps + 1 + k \<and> pos = stepN ?next dx dy k
     \<and> (\<forall>i. 1 \<le> i \<and> i \<le> k \<longrightarrow> canEnter g (stepN ?next dx dy i))
     \<and> (\<forall>i. 1 \<le> i \<and> i < k \<longrightarrow> \<not> isExit g (stepN ?next dx dy i) \<and> countOpenNeighbors g (stepN ?next dx dy i) < 3)
     \<and> ((1 \<le> k \<and> (isExit g pos \<or> 3 \<le> countOpenNeighbors g pos))
         \<or> \<not> canEnter g (stepN ?next dx dy (Suc k))
         \<or> length g * length (g ! 0) \<le> n)"
          using "1.IH"[OF cap refl _ _ _ _ _ rec] enter False
          by (auto simp: canEnter_def isExit_def)
        then obtain k where k: "n = steps + 1 + k" "pos = stepN current dx dy (Suc k)"
          "\<forall>i. 1 \<le> i \<and> i \<le> k \<longrightarrow> canEnter g (stepN current dx dy (Suc i))"
          "\<forall>i. 1 \<le> i \<and> i < k \<longrightarrow> \<not> isExit g (stepN current dx dy (Suc i)) \<and> countOpenNeighbors g (stepN current dx dy (Suc i)) < 3"
          "(1 \<le> k \<and> (isExit g pos \<or> 3 \<le> countOpenNeighbors g pos))
         \<or> \<not> canEnter g (stepN current dx dy (Suc (Suc k)))
         \<or> length g * length (g ! 0) \<le> n"
          unfolding stepN_Suc by blast
        have a: "\<forall>i. 1 \<le> i \<and> i \<le> Suc k \<longrightarrow> canEnter g (stepN current dx dy i)"
        proof (intro allI impI)
          fix i assume "1 \<le> i \<and> i \<le> Suc k"
          then obtain j where "i = Suc j" "j \<le> k" by (cases i) auto
          then show "canEnter g (stepN current dx dy i)"
            using k(3) enter next1 by (cases j) auto
        qed
        have b: "\<forall>i. 1 \<le> i \<and> i < Suc k \<longrightarrow> \<not> isExit g (stepN current dx dy i) \<and> countOpenNeighbors g (stepN current dx dy i) < 3"
        proof (intro allI impI)
          fix i assume "1 \<le> i \<and> i < Suc k"
          then obtain j where "i = Suc j" "j < k" by (cases i) auto
          then show "\<not> isExit g (stepN current dx dy i) \<and> countOpenNeighbors g (stepN current dx dy i) < 3"
            using k(4) False next1 by (cases j) auto
        qed
        show ?thesis
          using k(1,2,5) a b by (intro exI[of _ "Suc k"]) auto
      qed
    qed
  qed
qed


lemma cap_blocks:
  assumes d: "directionVectors d = (dx, dy)"
    and en: "\<forall>i. 1 \<le> i \<and> i \<le> k \<longrightarrow> canEnter g (stepN s dx dy i)"
    and cap: "length g * length (g ! 0) \<le> k"
  shows "\<not> canEnter g (stepN s dx dy (Suc k))"
proof (cases "k = 0")
  case True
  with cap have "length g = 0 \<or> length (g ! 0) = 0" by simp
  then show ?thesis by (auto simp: canEnter_def)
next
  case False
  then have e1: "canEnter g (stepN s dx dy 1)" and ek: "canEnter g (stepN s dx dy k)"
    using en by auto
  from e1 have h: "1 \<le> length g" and w: "1 \<le> length (g ! 0)"
    by (auto simp: canEnter_def)
  have kw: "length (g ! 0) \<le> k" using cap h
    by (metis (no_types, lifting) le_trans mult.commute mult_le_mono2 mult_1_right)
  have kh: "length g \<le> k" using cap w
    by (metis (no_types, lifting) le_trans mult_le_mono2 mult_1_right)
  show ?thesis
    using d e1 ek kw kh by (cases d) (auto simp: canEnter_def stepN_def)
qed

lemma moveLoop_glide:
  assumes d: "directionVectors d = (dx, dy)"
    and run: "moveLoop g dx dy s 0 = (pos, n)"
  shows "pos = stepN s dx dy n
     \<and> (\<forall>i. 1 \<le> i \<and> i \<le> n \<longrightarrow> canEnter g (stepN s dx dy i))
     \<and> (\<forall>i. 1 \<le> i \<and> i < n \<longrightarrow> \<not> isExit g (stepN s dx dy i) \<and> countOpenNeighbors g (stepN s dx dy i) < 3)
     \<and> ((1 \<le> n \<and> (isExit g pos \<or> 3 \<le> countOpenNeighbors g pos))
         \<or> \<not> canEnter g (stepN s dx dy (Suc n)))"
  using moveLoop_spec[OF run] cap_blocks[OF d, of n g s] by auto







lemma demo_dir: "ownDirection (toUpperCase ''right'') = Some RIGHT"
  by (simp add: ownDirection_def toUpperCase_def upperChar_def)


lemma demo_run:
  "fst (handleMove (demoGames PLAYING \<lparr>px = 1, py = 1\<rparr>) 50 1000 ''1234'' ''alice'' \<lparr>direction = ''right''\<rparr>)
     = Inr \<lparr>rposition = \<lparr>px = 3, py = 1\<rparr>, durationMs = 100\<rparr>"
  by (simp add: handleMove_def demoGames_def demoGame_def demoPlayer_def demo_dir
      moveToNextJunction_def moveLoop.simps demoGrid_def cellAt_def isWalkable_def
      countOpenNeighbors_def openNeighbor_def Let_def)

text \<open>
  Claim C2. When a successful \<open>handleMove\<close> stops on the exit cell, the game's phase is
  \<open>FINISHED\<close> and \<open>winnerId\<close> is the mover, and every later \<open>handleMove\<close> on that game
  fails with \<open>GAME_NOT_READY\<close> and leaves the store as it is; the same holds for any game
  whose phase is \<open>FINISHED\<close>.
\<close>

theorem handleMove_exit_finishes:
  "(\<forall>r games' game.
       handleMove games speed now code cid move = (Inr r, games') \<and> games code = Some game
       \<and> isExit (mgrid (maze game)) (rposition r)
       \<longrightarrow> (\<exists>game'. games' code = Some game' \<and> phase game' = FINISHED
              \<and> winnerId game' = Some cid
              \<and> (\<forall>speed2 now2 cid2 move2.
                    handleMove games' speed2 now2 code cid2 move2 = (Inl GAME_NOT_READY, games'))))
   \<and> (\<forall>game. games code = Some game \<and> phase game = FINISHED
        \<longrightarrow> handleMove games speed now code cid move = (Inl GAME_NOT_READY, games))"
proof (intro conjI allI impI)
  fix game
  assume "games code = Some game \<and> phase game = FINISHED"
  then show "handleMove games speed now code cid move = (Inl GAME_NOT_READY, games)"
    by (simp add: handleMove_def)
next
  fix r games' game
  assume a: "handleMove games speed now code cid move = (Inr r, games') \<and> games code = Some game
       \<and> isExit (mgrid (maze game)) (rposition r)"
  then have "\<exists>game'. games' code = Some game' \<and> phase game' = FINISHED \<and> winnerId game' = Some cid"
    by (auto simp: handleMove_def isExit_def Let_def split: option.splits if_splits sum.splits)
  then obtain game' where g': "games' code = Some game'" "phase game' = FINISHED" "winnerId game' = Some cid"
    by blast
  have "\<forall>speed2 now2 cid2 move2.
          handleMove games' speed2 now2 code cid2 move2 = (Inl GAME_NOT_READY, games')"
    using g' by (simp add: handleMove_def)
  with g' show "\<exists>game'. games' code = Some game' \<and> phase game' = FINISHED
              \<and> winnerId game' = Some cid
              \<and> (\<forall>speed2 now2 cid2 move2.
                    handleMove games' speed2 now2 code cid2 move2 = (Inl GAME_NOT_READY, games'))"
    by blast
qed

text \<open>
  Claim C3. Whenever \<open>handleMove\<close> raises an error, the store of games is unchanged, so
  the same call made again (at any later time) raises the same error from the same store.
\<close>

theorem handleMove_atomic:
  "fst (handleMove games speed now code cid move) = Inl e \<Longrightarrow>
     snd (handleMove games speed now code cid move) = games
   \<and> (\<forall>speed2 now2. handleMove games speed2 now2 code cid move = (Inl e, games))"
  by (auto simp: handleMove_def Let_def split: option.splits if_splits sum.splits)


lemma demo_dir_down: "ownDirection (toUpperCase ''down'') = Some DOWN"
  by (simp add: ownDirection_def toUpperCase_def upperChar_def)

lemma demo_dir_up: "ownDirection (toUpperCase ''up'') = Some UP"
  by (simp add: ownDirection_def toUpperCase_def upperChar_def)

lemma demo_run_exit:
  "fst (handleMove (demoGames PLAYING \<lparr>px = 3, py = 2\<rparr>) 50 1000 ''1234'' ''alice'' \<lparr>direction = ''down''\<rparr>)
     = Inr \<lparr>rposition = \<lparr>px = 3, py = 3\<rparr>, durationMs = 50\<rparr>"
  by (simp add: handleMove_def demoGames_def demoGame_def demoPlayer_def demo_dir_down
      moveToNextJunction_def moveLoop.simps demoGrid_def cellAt_def isWalkable_def
      countOpenNeighbors_def openNeighbor_def Let_def)

lemma demo_run_wall:
  "fst (handleMove (demoGames PLAYING \<lparr>px = 1, py = 1\<rparr>) 50 1000 ''1234'' ''alice'' \<lparr>direction = ''up''\<rparr>)
     = Inl INVALID_MOVE"
  by (simp add: handleMove_def demoGames_def demoGame_def demoPlayer_def demo_dir_up
      moveToNextJunction_def moveLoop.simps demoGrid_def cellAt_def isWalkable_def
      countOpenNeighbors_def openNeighbor_def Let_def)

text \<open>The exit theorem at the demo game: alice at (3,2) moves down onto the exit.\<close>

theorem handleMove_exit_finishes_witness:
  "\<exists>r games' game'.
      handleMove (demoGames PLAYING \<lparr>px = 3, py = 2\<rparr>) 50 1000 ''1234'' ''alice'' \<lparr>direction = ''down''\<rparr>
        = (Inr r, games')
    \<and> rposition r = \<lparr>px = 3, py = 3\<rparr>
    \<and> games' ''1234'' = Some game' \<and> phase game' = FINISHED \<and> winnerId game' = Some ''alice''
    \<and> handleMove games' 50 2000 ''1234'' ''bob'' \<lparr>direction = ''right''\<rparr> = (Inl GAME_NOT_READY, games')"
proof -
  let ?games = "demoGames PLAYING \<lparr>px = 3, py = 2\<rparr>"
  let ?run = "handleMove ?games 50 1000 ''1234'' ''alice'' \<lparr>direction = ''down''\<rparr>"
  let ?r = "\<lparr>rposition = \<lparr>px = 3, py = 3\<rparr>, durationMs = 50\<rparr>"
  have run: "?run = (Inr ?r, snd ?run)"
    using demo_run_exit by (cases ?run) simp
  have g: "?games ''1234'' = Some (demoGame PLAYING \<lparr>px = 3, py = 2\<rparr>)"
    by (simp add: demoGames_def)
  have ex: "isExit (mgrid (maze (demoGame PLAYING \<lparr>px = 3, py = 2\<rparr>))) (rposition ?r)"
    by (simp add: isExit_def demoGame_def demoGrid_def cellAt_def)
  from handleMove_exit_finishes[of ?games 50 1000 "''1234''" "''alice''" "\<lparr>direction = ''down''\<rparr>"]
  have "\<exists>game'. snd ?run ''1234'' = Some game' \<and> phase game' = FINISHED
              \<and> winnerId game' = Some ''alice''
              \<and> (\<forall>speed2 now2 cid2 move2.
                    handleMove (snd ?run) speed2 now2 ''1234'' cid2 move2 = (Inl GAME_NOT_READY, snd ?run))"
    using run g ex by blast
  with run show ?thesis by (metis MoveResult.select_convs(1))
qed

text \<open>The atomicity theorem at the demo game: alice at (1,1) moves up into a wall.\<close>

theorem handleMove_atomic_witness:
  "fst (handleMove (demoGames PLAYING \<lparr>px = 1, py = 1\<rparr>) 50 1000 ''1234'' ''alice'' \<lparr>direction = ''up''\<rparr>)
     = Inl INVALID_MOVE
   \<and> snd (handleMove (demoGames PLAYING \<lparr>px = 1, py = 1\<rparr>) 50 1000 ''1234'' ''alice'' \<lparr>direction = ''up''\<rparr>)
     = demoGames PLAYING \<lparr>px = 1, py = 1\<rparr>
   \<and> (\<forall>speed2 now2.
        handleMove (demoGames PLAYING \<lparr>px = 1, py = 1\<rparr>) speed2 now2 ''1234'' ''alice'' \<lparr>direction = ''up''\<rparr>
          = (Inl INVALID_MOVE, demoGames PLAYING \<lparr>px = 1, py = 1\<rparr>))"
  using handleMove_atomic[OF demo_run_wall] demo_run_wall by blast

section \<open>Properties of the lobby manager\<close>
lemma find_None_iff_ids: "(find (\<lambda>p. clientId p = cid) ps = None) = (cid \<notin> clientId ` set ps)"
  by (auto simp: find_None_iff)

text \<open>
  A member who joins a full lobby again is told \<open>ALREADY_IN_LOBBY\<close>, not \<open>LOBBY_FULL\<close>:
  the membership test of \<open>joinLobby\<close> comes before the capacity test.
\<close>
theorem joinLobby_full_counterexample:
  "demoLobbies ''4711'' = Some demoLobby \<and> length (lplayers demoLobby) = 2
   \<and> fst (joinLobby demoLobbies ''4711'' ''alice'' ''Alice'') = Inl ALREADY_IN_LOBBY
   \<and> fst (joinLobby demoLobbies ''4711'' ''alice'' ''Alice'') \<noteq> Inl LOBBY_FULL"
  by (simp add: joinLobby_def demoLobbies_def demoLobby_def)

text \<open>
  Claim C6. \<open>joinLobby\<close> fails with \<open>LOBBY_NOT_FOUND\<close> when the code is not a live lobby;
  otherwise with \<open>ALREADY_IN_LOBBY\<close> when the client is already a member (full lobby or
  not); otherwise with \<open>LOBBY_FULL\<close> when the lobby has two members or more. Every failure
  leaves the store, and so the player list, as it was. A successful join appends the new
  player with \<open>acceptedGame = false\<close>, keeps the leader, and the lobby is \<open>OPEN\<close> afterwards
  whenever it had a member or was \<open>OPEN\<close> before.
\<close>
theorem joinLobby_outcomes:
  "(lobbies c = None \<longrightarrow> joinLobby lobbies c cid nm = (Inl LOBBY_NOT_FOUND, lobbies))
   \<and> (\<forall>lobby. lobbies c = Some lobby \<and> cid \<in> clientId ` set (lplayers lobby)
         \<longrightarrow> joinLobby lobbies c cid nm = (Inl ALREADY_IN_LOBBY, lobbies))
   \<and> (\<forall>lobby. lobbies c = Some lobby \<and> cid \<notin> clientId ` set (lplayers lobby)
           \<and> 2 \<le> length (lplayers lobby)
         \<longrightarrow> joinLobby lobbies c cid nm = (Inl LOBBY_FULL, lobbies))
   \<and> (\<forall>lobby. lobbies c = Some lobby \<and> cid \<notin> clientId ` set (lplayers lobby)
           \<and> length (lplayers lobby) < 2
         \<longrightarrow> (\<exists>lobby'. joinLobby lobbies c cid nm = (Inr lobby', lobbies(c \<mapsto> lobby'))
               \<and> lplayers lobby' = lplayers lobby @ [\<lparr>clientId = cid, lname = nm, acceptedGame = False\<rparr>]
               \<and> leaderId lobby' = leaderId lobby
               \<and> (lplayers lobby \<noteq> [] \<or> status lobby = OPEN \<longrightarrow> status lobby' = OPEN)))"
proof (intro conjI allI impI)
  assume "lobbies c = None"
  then show "joinLobby lobbies c cid nm = (Inl LOBBY_NOT_FOUND, lobbies)"
    by (simp add: joinLobby_def)
next
  fix lobby
  assume "lobbies c = Some lobby \<and> cid \<in> clientId ` set (lplayers lobby)"
  then show "joinLobby lobbies c cid nm = (Inl ALREADY_IN_LOBBY, lobbies)"
    by (simp add: joinLobby_def find_None_iff_ids)
next
  fix lobby
  assume "lobbies c = Some lobby \<and> cid \<notin> clientId ` set (lplayers lobby) \<and> 2 \<le> length (lplayers lobby)"
  then show "joinLobby lobbies c cid nm = (Inl LOBBY_FULL, lobbies)"
    by (simp add: joinLobby_def find_None_iff_ids MAX_PLAYERS_def)
next
  fix lobby
  assume a: "lobbies c = Some lobby \<and> cid \<notin> clientId ` set (lplayers lobby) \<and> length (lplayers lobby) < 2"
  then have nf: "find (\<lambda>p. clientId p = cid) (lplayers lobby) = None"
    and len: "\<not> MAX_PLAYERS \<le> length (lplayers lobby)"
    by (simp_all add: find_None_iff_ids MAX_PLAYERS_def)
  let ?p = "\<lparr>clientId = cid, lname = nm, acceptedGame = False\<rparr>"
  let ?l1 = "lobby\<lparr>lplayers := lplayers lobby @ [?p]\<rparr>"
  let ?l2 = "?l1\<lparr>status := (if length (lplayers ?l1) = MAX_PLAYERS then OPEN else status ?l1)\<rparr>"
  have run: "joinLobby lobbies c cid nm = (Inr ?l2, lobbies(c \<mapsto> ?l2))"
    using a nf len by (simp add: joinLobby_def Let_def)
  have st: "lplayers lobby \<noteq> [] \<or> status lobby = OPEN \<longrightarrow> status ?l2 = OPEN"
  proof
    assume "lplayers lobby \<noteq> [] \<or> status lobby = OPEN"
    moreover have "lplayers lobby \<noteq> [] \<Longrightarrow> length (lplayers lobby) = 1"
      using a by (cases "lplayers lobby") auto
    ultimately show "status ?l2 = OPEN" by (auto simp: MAX_PLAYERS_def)
  qed
  show "\<exists>lobby'. joinLobby lobbies c cid nm = (Inr lobby', lobbies(c \<mapsto> lobby'))
               \<and> lplayers lobby' = lplayers lobby @ [\<lparr>clientId = cid, lname = nm, acceptedGame = False\<rparr>]
               \<and> leaderId lobby' = leaderId lobby
               \<and> (lplayers lobby \<noteq> [] \<or> status lobby = OPEN \<longrightarrow> status lobby' = OPEN)"
    using run st by (intro exI[of _ ?l2]) simp
qed

text \<open>The four outcomes of \<open>joinLobby\<close> on the demo lobby.\<close>
theorem joinLobby_outcomes_witness:
  "joinLobby demoLobbies ''0000'' ''carol'' ''Carol'' = (Inl LOBBY_NOT_FOUND, demoLobbies)
   \<and> joinLobby demoLobbies ''4711'' ''bob'' ''Bob'' = (Inl ALREADY_IN_LOBBY, demoLobbies)
   \<and> joinLobby demoLobbies ''4711'' ''carol'' ''Carol'' = (Inl LOBBY_FULL, demoLobbies)
   \<and> (\<exists>lobby'. joinLobby (snd (leaveLobby demoLobbies ''4711'' ''bob'')) ''4711'' ''carol'' ''Carol''
          = (Inr lobby', (snd (leaveLobby demoLobbies ''4711'' ''bob''))(''4711'' \<mapsto> lobby'))
        \<and> map clientId (lplayers lobby') = [''alice'', ''carol''] \<and> status lobby' = OPEN)"
proof -
  have g: "demoLobbies ''4711'' = Some demoLobby" and g0: "demoLobbies ''0000'' = None"
    by (simp_all add: demoLobbies_def)
  have bob: "''bob'' \<in> clientId ` set (lplayers demoLobby)"
    and carol: "''carol'' \<notin> clientId ` set (lplayers demoLobby)"
    and len: "2 \<le> length (lplayers demoLobby)"
    by (simp_all add: demoLobby_def)
  let ?s = "snd (leaveLobby demoLobbies ''4711'' ''bob'')"
  let ?l = "demoLobby\<lparr>lplayers := [\<lparr>clientId = ''alice'', lname = ''Alice'', acceptedGame = False\<rparr>]\<rparr>"
  have s: "?s ''4711'' = Some ?l"
    by (simp add: leaveLobby_def demoLobbies_def demoLobby_def Let_def)
  have carol': "''carol'' \<notin> clientId ` set (lplayers ?l)" and len': "length (lplayers ?l) < 2"
    and st: "status ?l = OPEN"
    by (simp_all add: demoLobby_def)
  have 1: "joinLobby demoLobbies ''0000'' ''carol'' ''Carol'' = (Inl LOBBY_NOT_FOUND, demoLobbies)"
    using joinLobby_outcomes[of demoLobbies "''0000''" "''carol''" "''Carol''"] g0 by (elim conjE) (erule mp)
  have 2: "joinLobby demoLobbies ''4711'' ''bob'' ''Bob'' = (Inl ALREADY_IN_LOBBY, demoLobbies)"
    using joinLobby_outcomes[of demoLobbies "''4711''" "''bob''" "''Bob''"] g bob
    by (elim conjE) (erule allE[of _ demoLobby], erule mp, intro conjI)
  have 3: "joinLobby demoLobbies ''4711'' ''carol'' ''Carol'' = (Inl LOBBY_FULL, demoLobbies)"
    using joinLobby_outcomes[of demoLobbies "''4711''" "''carol''" "''Carol''"] g carol len
    by (elim conjE) (erule allE[of _ demoLobby], erule allE[of _ demoLobby], erule mp, intro conjI)
  have "\<exists>lobby'. joinLobby ?s ''4711'' ''carol'' ''Carol'' = (Inr lobby', ?s(''4711'' \<mapsto> lobby'))
               \<and> lplayers lobby' = lplayers ?l @ [\<lparr>clientId = ''carol'', lname = ''Carol'', acceptedGame = False\<rparr>]
               \<and> leaderId lobby' = leaderId ?l
               \<and> (lplayers ?l \<noteq> [] \<or> status ?l = OPEN \<longrightarrow> status lobby' = OPEN)"
    using joinLobby_outcomes[of ?s "''4711''" "''carol''" "''Carol''"] s carol' len'
    by (elim conjE) (erule allE[of _ ?l], erule allE[of _ ?l], erule allE[of _ ?l], erule mp, intro conjI)
  then obtain lobby' where l': "joinLobby ?s ''4711'' ''carol'' ''Carol'' = (Inr lobby', ?s(''4711'' \<mapsto> lobby'))"
    "lplayers lobby' = lplayers ?l @ [\<lparr>clientId = ''carol'', lname = ''Carol'', acceptedGame = False\<rparr>]"
    "lplayers ?l \<noteq> [] \<or> status ?l = OPEN \<longrightarrow> status lobby' = OPEN"
    by (elim exE conjE)
  from l'(2) have ids: "map clientId (lplayers lobby') = [''alice'', ''carol'']" by simp
  from l'(3) st have "status lobby' = OPEN" by (elim impE) (rule disjI2)
  with l'(1) ids have 4: "\<exists>lobby'. joinLobby ?s ''4711'' ''carol'' ''Carol'' = (Inr lobby', ?s(''4711'' \<mapsto> lobby'))
        \<and> map clientId (lplayers lobby') = [''alice'', ''carol''] \<and> status lobby' = OPEN"
    by (intro exI[of _ lobby'] conjI)
  from 1 2 3 4 show ?thesis by (intro conjI)
qed

lemma find_None_ids: "(find (\<lambda>p. clientId p = cid) ps = None) = (cid \<notin> clientId ` set ps)"
  by (auto simp: find_None_iff)

lemma map_clientId_updateFirst:
  "map clientId (updateFirst P (\<lambda>p. p\<lparr>acceptedGame := a\<rparr>) ps) = map clientId ps"
  by (induction ps) auto

lemma updateFirst_Nil_iff: "(updateFirst P f ps = []) = (ps = [])"
  by (cases ps) auto

lemma lobbyInv_cong:
  "lobbyInv l \<Longrightarrow> map clientId (lplayers l') = map clientId (lplayers l) \<Longrightarrow> leaderId l' = leaderId l
     \<Longrightarrow> lobbyInv l'"
proof -
  assume a: "lobbyInv l" "map clientId (lplayers l') = map clientId (lplayers l)" "leaderId l' = leaderId l"
  have "clientId ` set (lplayers l') = clientId ` set (lplayers l)"
    using a(2) by (metis set_map)
  moreover have "lplayers l' \<noteq> []" using a(1,2) by (auto simp: lobbyInv_def)
  ultimately show ?thesis using a by (simp add: lobbyInv_def)
qed

lemma storeInv_upd: "storeInv s \<Longrightarrow> lobbyInv l \<Longrightarrow> storeInv (s(c \<mapsto> l))"
  by (simp add: storeInv_def)

lemma storeInv_del: "storeInv s \<Longrightarrow> storeInv (s(c := None))"
  by (simp add: storeInv_def)

lemma storeInv_get: "storeInv s \<Longrightarrow> s c = Some l \<Longrightarrow> lobbyInv l"
  by (simp add: storeInv_def)

lemma inv_create: "storeInv s \<Longrightarrow> storeInv (snd (createLobby s r now lid nm))"
  by (auto simp: createLobby_def Let_def lobbyInv_def split: sum.splits intro!: storeInv_upd)

lemma inv_join: "storeInv s \<Longrightarrow> storeInv (snd (joinLobby s c cid nm))"
  by (auto simp: joinLobby_def Let_def lobbyInv_def find_None_ids split: option.splits
      intro!: storeInv_upd dest: storeInv_get)

lemma leaveLobby_some:
  assumes "s c = Some l" and "filter (\<lambda>p. clientId p \<noteq> cid) (lplayers l) \<noteq> []"
  shows "leaveLobby s c cid =
    (Some (l\<lparr>lplayers := filter (\<lambda>p. clientId p \<noteq> cid) (lplayers l),
              leaderId := (if leaderId l \<in> clientId ` set (filter (\<lambda>p. clientId p \<noteq> cid) (lplayers l))
                           then leaderId l
                           else clientId (hd (filter (\<lambda>p. clientId p \<noteq> cid) (lplayers l)))),
              status := OPEN\<rparr>),
     s(c \<mapsto> l\<lparr>lplayers := filter (\<lambda>p. clientId p \<noteq> cid) (lplayers l),
              leaderId := (if leaderId l \<in> clientId ` set (filter (\<lambda>p. clientId p \<noteq> cid) (lplayers l))
                           then leaderId l
                           else clientId (hd (filter (\<lambda>p. clientId p \<noteq> cid) (lplayers l)))),
              status := OPEN\<rparr>))"
proof -
  let ?ps = "filter (\<lambda>p. clientId p \<noteq> cid) (lplayers l)"
  have hd: "?ps ! 0 = hd ?ps" using assms(2) by (simp add: hd_conv_nth)
  show ?thesis
  proof (cases "leaderId l \<in> clientId ` set ?ps")
    case True
    then have "find (\<lambda>p. clientId p = leaderId l) ?ps \<noteq> None" by (simp add: find_None_ids)
    with assms True show ?thesis by (auto simp add: leaveLobby_def Let_def)
  next
    case False
    then have "find (\<lambda>p. clientId p = leaderId l) ?ps = None" by (simp add: find_None_ids)
    with assms False hd show ?thesis by (simp add: leaveLobby_def Let_def)
  qed
qed

lemma leaveLobby_none:
  assumes "s c = Some l" and "filter (\<lambda>p. clientId p \<noteq> cid) (lplayers l) = []"
  shows "leaveLobby s c cid = (None, s(c := None))"
  using assms by (simp add: leaveLobby_def Let_def)

lemma inv_leave: "storeInv s \<Longrightarrow> storeInv (snd (leaveLobby s c cid))"
proof (cases "s c")
  case None
  assume "storeInv s" with None show ?thesis by (simp add: leaveLobby_def)
next
  case (Some l)
  assume inv: "storeInv s"
  then have "lobbyInv l" using Some by (rule storeInv_get)
  then have d: "distinct (map clientId (lplayers l))" by (simp add: lobbyInv_def)
  let ?ps = "filter (\<lambda>p. clientId p \<noteq> cid) (lplayers l)"
  show ?thesis
  proof (cases "?ps = []")
    case True
    with Some inv show ?thesis by (simp add: leaveLobby_none storeInv_del)
  next
    case False
    have d': "distinct (map clientId ?ps)" using d by (simp add: distinct_map_filter)
    have h: "clientId (hd ?ps) \<in> clientId ` set ?ps" using False by (intro imageI hd_in_set)
    have "lobbyInv (l\<lparr>lplayers := ?ps,
              leaderId := (if leaderId l \<in> clientId ` set ?ps then leaderId l else clientId (hd ?ps)),
              status := OPEN\<rparr>)"
      using False d' h unfolding lobbyInv_def by (simp del: set_filter)
    then show ?thesis
      using inv leaveLobby_some[of s c l cid, OF Some False] by (simp add: storeInv_upd del: set_filter)
  qed
qed

lemma storeInv_upd_cong:
  "storeInv s \<Longrightarrow> s c = Some l \<Longrightarrow> map clientId (lplayers l') = map clientId (lplayers l)
     \<Longrightarrow> leaderId l' = leaderId l \<Longrightarrow> storeInv (s(c' \<mapsto> l'))"
  using lobbyInv_cong storeInv_get storeInv_upd by blast

lemma inv_size: "storeInv s \<Longrightarrow> storeInv (snd (setMazeSize s c lid sz))"
proof (cases "s c")
  case None
  assume "storeInv s" with None show ?thesis by (simp add: setMazeSize_def)
next
  case (Some l)
  assume inv: "storeInv s"
  have "storeInv (s(c \<mapsto> l\<lparr>selectedMazeSize := sz\<rparr>))"
    by (rule storeInv_upd_cong[OF inv Some]) simp_all
  with Some inv show ?thesis by (simp add: setMazeSize_def Let_def)
qed

lemma inv_accept: "storeInv s \<Longrightarrow> storeInv (snd (markAcceptGame s c cid a))"
proof (cases "s c")
  case None
  assume "storeInv s" with None show ?thesis by (simp add: markAcceptGame_def)
next
  case (Some l)
  assume inv: "storeInv s"
  have "storeInv (s(c \<mapsto> l\<lparr>lplayers :=
          updateFirst (\<lambda>p. clientId p = cid) (\<lambda>p. p\<lparr>acceptedGame := a\<rparr>) (lplayers l)\<rparr>))"
    by (rule storeInv_upd_cong[OF inv Some]) (simp_all add: map_clientId_updateFirst)
  with Some inv show ?thesis by (simp add: markAcceptGame_def Let_def)
qed

lemma inv_reset: "storeInv s \<Longrightarrow> storeInv (snd (resetAcceptances s c))"
proof (cases "s c")
  case None
  assume "storeInv s" with None show ?thesis by (simp add: resetAcceptances_def)
next
  case (Some l)
  assume inv: "storeInv s"
  have "storeInv (s(c \<mapsto> l\<lparr>lplayers := map (\<lambda>player. player\<lparr>acceptedGame := False\<rparr>) (lplayers l)\<rparr>))"
    by (rule storeInv_upd_cong[OF inv Some]) (simp_all add: comp_def)
  with Some show ?thesis by (simp add: resetAcceptances_def Let_def)
qed

lemma inv_start: "storeInv s \<Longrightarrow> storeInv (snd (startGame s c))"
proof (cases "s c")
  case None
  assume "storeInv s" with None show ?thesis by (simp add: startGame_def)
next
  case (Some l)
  assume inv: "storeInv s"
  have "storeInv (s(c \<mapsto> l\<lparr>status := STARTING\<rparr>))"
    by (rule storeInv_upd_cong[OF inv Some]) simp_all
  with Some show ?thesis by (simp add: startGame_def Let_def)
qed

lemma inv_finish: "storeInv s \<Longrightarrow> storeInv (snd (finishGame s c))"
proof (cases "s c")
  case None
  assume "storeInv s" with None show ?thesis by (simp add: finishGame_def)
next
  case (Some l)
  assume inv: "storeInv s"
  have "storeInv (s(c \<mapsto> l\<lparr>status := IN_GAME\<rparr>))"
    by (rule storeInv_upd_cong[OF inv Some]) simp_all
  with Some show ?thesis by (simp add: finishGame_def Let_def)
qed

lemma inv_end: "storeInv s \<Longrightarrow> storeInv (snd (endGame s c))"
proof (cases "s c")
  case None
  assume "storeInv s" with None show ?thesis by (simp add: endGame_def)
next
  case (Some l)
  assume inv: "storeInv s"
  have "storeInv (s(c \<mapsto> l\<lparr>status := OPEN\<rparr>))"
    by (rule storeInv_upd_cong[OF inv Some]) simp_all
  then have "storeInv (snd (resetAcceptances (s(c \<mapsto> l\<lparr>status := OPEN\<rparr>)) c))" by (rule inv_reset)
  with Some show ?thesis by (simp add: endGame_def Let_def)
qed

lemma inv_cleanup: "storeInv s \<Longrightarrow> storeInv (cleanupStaleLobbies s now)"
  by (auto simp: storeInv_def cleanupStaleLobbies_def split: option.splits if_splits)

lemma inv_handleStart: "storeInv s \<Longrightarrow> storeInv (snd (handleStartGame s lc cl))"
proof -
  assume inv: "storeInv s"
  have step: "storeInv (snd (case s2 c of None \<Rightarrow> ([], s2)
        | Some lobbyA \<Rightarrow>
            (let lobbyB = lobbyA\<lparr>lplayers :=
                   updateFirst (\<lambda>player. clientId player = leaderId lobbyA)
                     (\<lambda>player. player\<lparr>acceptedGame := True\<rparr>) (lplayers lobbyA)\<rparr>
             in ([LobbyPacket (lcode lobbyB) ''START_GAME'' lobbyB,
                  LobbyPacket (lcode lobbyB) ''LOBBY_UPDATE'' lobbyB],
                 s2(c \<mapsto> lobbyB)))))" if i2: "storeInv s2" for s2 c
  proof (cases "s2 c")
    case None
    with i2 show ?thesis by simp
  next
    case (Some lobbyA)
    have "storeInv (s2(c \<mapsto> lobbyA\<lparr>lplayers :=
                   updateFirst (\<lambda>player. clientId player = leaderId lobbyA)
                     (\<lambda>player. player\<lparr>acceptedGame := True\<rparr>) (lplayers lobbyA)\<rparr>))"
      by (rule storeInv_upd_cong[OF i2 Some]) (simp_all add: map_clientId_updateFirst)
    with Some show ?thesis by (simp add: Let_def)
  qed
  show ?thesis
  proof (cases lc)
    case None
    with inv show ?thesis by (simp add: handleStartGame_def)
  next
    case (Some c)
    show ?thesis
    proof (cases "s c")
      case None
      with Some inv show ?thesis by (simp add: handleStartGame_def getLobby_def)
    next
      case l: (Some lobby)
      obtain res s1 where sg: "startGame s (lcode lobby) = (res, s1)" by (cases "startGame s (lcode lobby)")
      have i1: "storeInv s1" using inv_start[OF inv, of "lcode lobby"] sg by simp
      have i2: "storeInv (snd (resetAcceptances s1 (lcode lobby)))" using i1 by (rule inv_reset)
      show ?thesis
        using Some l inv sg i1 step[OF i2, of c]
        by (cases res) (simp_all add: handleStartGame_def getLobby_def Let_def)
    qed
  qed
qed

lemma inv_writeStatus: "storeInv s \<Longrightarrow> storeInv (writeStatus s c st)"
proof (cases "s c")
  case None
  assume "storeInv s" with None show ?thesis by (simp add: writeStatus_def)
next
  case (Some l)
  assume inv: "storeInv s"
  have "storeInv (s(c \<mapsto> l\<lparr>status := st\<rparr>))"
    by (rule storeInv_upd_cong[OF inv Some]) simp_all
  with Some show ?thesis by (simp add: writeStatus_def)
qed

lemma inv_writeLeader: "storeInv s \<Longrightarrow> storeInv (writeLeaderAccepted s c)"
proof (cases "s c")
  case None
  assume "storeInv s" with None show ?thesis by (simp add: writeLeaderAccepted_def)
next
  case (Some l)
  assume inv: "storeInv s"
  have "storeInv (s(c \<mapsto> l\<lparr>lplayers :=
          updateFirst (\<lambda>player. clientId player = leaderId l)
            (\<lambda>player. player\<lparr>acceptedGame := True\<rparr>) (lplayers l)\<rparr>))"
    by (rule storeInv_upd_cong[OF inv Some]) (simp_all add: map_clientId_updateFirst)
  with Some show ?thesis by (simp add: writeLeaderAccepted_def)
qed

lemma reachable_storeInv: "reachableLobbies s \<Longrightarrow> storeInv s"
proof (induction rule: reachableLobbies.induct)
  case r_init
  show ?case by (simp add: storeInv_def)
qed (simp_all add: inv_create inv_join inv_leave inv_size inv_accept inv_reset inv_start
      inv_finish inv_end inv_cleanup inv_handleStart inv_writeStatus inv_writeLeader)

text \<open>
  Claim C7. In every store the lobby manager can reach, every lobby has at least one
  player and its \<open>leaderId\<close> is the \<open>clientId\<close> of one of its players. When \<open>leaveLobby\<close>
  removes a client and somebody remains, the leader afterwards is a remaining player: the
  first remaining player in list order if the leader left, the old leader otherwise. In a
  lobby of two, whoever leaves, the one who stays is the leader afterwards.
\<close>
theorem leader_is_member:
  assumes "reachableLobbies s" and "s c = Some lobby"
  shows "lplayers lobby \<noteq> [] \<and> leaderId lobby \<in> clientId ` set (lplayers lobby)
    \<and> (\<forall>cid. filter (\<lambda>p. clientId p \<noteq> cid) (lplayers lobby) \<noteq> [] \<longrightarrow>
          (\<exists>lobby'. leaveLobby s c cid = (Some lobby', s(c \<mapsto> lobby'))
             \<and> lplayers lobby' = filter (\<lambda>p. clientId p \<noteq> cid) (lplayers lobby)
             \<and> leaderId lobby' = (if cid = leaderId lobby then clientId (hd (lplayers lobby'))
                                   else leaderId lobby)
             \<and> leaderId lobby' \<in> clientId ` set (lplayers lobby')))
    \<and> (\<forall>a b. lplayers lobby = [a, b] \<longrightarrow>
          clientId a \<noteq> clientId b
        \<and> (\<exists>la lb. leaveLobby s c (clientId a) = (Some la, s(c \<mapsto> la))
              \<and> lplayers la = [b] \<and> leaderId la = clientId b
              \<and> leaveLobby s c (clientId b) = (Some lb, s(c \<mapsto> lb))
              \<and> lplayers lb = [a] \<and> leaderId lb = clientId a))"
proof -
  have inv: "lobbyInv lobby"
    using reachable_storeInv[OF assms(1)] assms(2) by (rule storeInv_get)
  then have ne: "lplayers lobby \<noteq> []" and mem: "leaderId lobby \<in> clientId ` set (lplayers lobby)"
    and dist: "distinct (map clientId (lplayers lobby))"
    by (simp_all add: lobbyInv_def)
  have leave: "\<exists>lobby'. leaveLobby s c cid = (Some lobby', s(c \<mapsto> lobby'))
             \<and> lplayers lobby' = filter (\<lambda>p. clientId p \<noteq> cid) (lplayers lobby)
             \<and> leaderId lobby' = (if cid = leaderId lobby then clientId (hd (lplayers lobby'))
                                   else leaderId lobby)
             \<and> leaderId lobby' \<in> clientId ` set (lplayers lobby')"
    if rem: "filter (\<lambda>p. clientId p \<noteq> cid) (lplayers lobby) \<noteq> []" for cid
  proof -
    let ?ps = "filter (\<lambda>p. clientId p \<noteq> cid) (lplayers lobby)"
    let ?l' = "lobby\<lparr>lplayers := ?ps,
              leaderId := (if leaderId lobby \<in> clientId ` set ?ps then leaderId lobby else clientId (hd ?ps)),
              status := OPEN\<rparr>"
    have run: "leaveLobby s c cid = (Some ?l', s(c \<mapsto> ?l'))"
      using leaveLobby_some[of s c lobby cid, OF assms(2) rem] .
    have iff: "(leaderId lobby \<in> clientId ` set ?ps) = (cid \<noteq> leaderId lobby)"
      using mem by (auto simp: image_iff)
    have h: "clientId (hd ?ps) \<in> clientId ` set ?ps" using rem by (intro imageI hd_in_set)
    have a: "lplayers ?l' = ?ps" by simp
    have b: "leaderId ?l' = (if cid = leaderId lobby then clientId (hd (lplayers ?l')) else leaderId lobby)"
      using iff by (simp del: set_filter)
    have c: "leaderId ?l' \<in> clientId ` set (lplayers ?l')"
      using h by (simp del: set_filter)
    from run a b c show ?thesis by (intro exI[of _ ?l'] conjI)
  qed
  have two: "clientId a \<noteq> clientId b
        \<and> (\<exists>la lb. leaveLobby s c (clientId a) = (Some la, s(c \<mapsto> la))
              \<and> lplayers la = [b] \<and> leaderId la = clientId b
              \<and> leaveLobby s c (clientId b) = (Some lb, s(c \<mapsto> lb))
              \<and> lplayers lb = [a] \<and> leaderId lb = clientId a)"
    if ab: "lplayers lobby = [a, b]" for a b
  proof -
    have neq: "clientId a \<noteq> clientId b" using dist ab by simp
    have m: "leaderId lobby = clientId a \<or> leaderId lobby = clientId b" using mem ab by simp
    have fa: "filter (\<lambda>p. clientId p \<noteq> clientId a) (lplayers lobby) = [b]"
      and fb: "filter (\<lambda>p. clientId p \<noteq> clientId b) (lplayers lobby) = [a]"
      using ab neq by auto
    have "filter (\<lambda>p. clientId p \<noteq> clientId a) (lplayers lobby) \<noteq> []" using fa by simp
    from leave[OF this] obtain la where
      la0: "leaveLobby s c (clientId a) = (Some la, s(c \<mapsto> la))"
         "lplayers la = filter (\<lambda>p. clientId p \<noteq> clientId a) (lplayers lobby)"
         "leaderId la \<in> clientId ` set (lplayers la)"
      by (elim exE conjE)
    have la: "leaveLobby s c (clientId a) = (Some la, s(c \<mapsto> la))" "lplayers la = [b]"
         "leaderId la \<in> clientId ` set (lplayers la)"
      using la0 fa by simp_all
    have "filter (\<lambda>p. clientId p \<noteq> clientId b) (lplayers lobby) \<noteq> []" using fb by simp
    from leave[OF this] obtain lb where
      lb0: "leaveLobby s c (clientId b) = (Some lb, s(c \<mapsto> lb))"
         "lplayers lb = filter (\<lambda>p. clientId p \<noteq> clientId b) (lplayers lobby)"
         "leaderId lb \<in> clientId ` set (lplayers lb)"
      by (elim exE conjE)
    have lb: "leaveLobby s c (clientId b) = (Some lb, s(c \<mapsto> lb))" "lplayers lb = [a]"
         "leaderId lb \<in> clientId ` set (lplayers lb)"
      using lb0 fb by simp_all
    from la(2,3) have "leaderId la = clientId b" by simp
    moreover from lb(2,3) have "leaderId lb = clientId a" by simp
    ultimately show ?thesis using neq la(1,2) lb(1,2)
      by (intro conjI exI[of _ la] exI[of _ lb])
  qed
  show ?thesis
  proof (intro conjI allI impI)
    show "lplayers lobby \<noteq> []" by (rule ne)
    show "leaderId lobby \<in> clientId ` set (lplayers lobby)" by (rule mem)
  qed (use leave two in blast)+
qed

lemma char_0: "char_of (48 :: nat) = CHR ''0''" by code_simp

lemma randomDigits_zero: "randomDigits LOBBY_CODE_LENGTH (\<lambda>_. 0, k) = (''0000'', (\<lambda>_. 0, k + 4))"
proof -
  have l: "LOBBY_CODE_LENGTH = Suc (Suc (Suc (Suc 0)))" by (simp add: LOBBY_CODE_LENGTH_def)
  show ?thesis unfolding l by (simp add: randomBelow_def char_0)
qed

lemma gen_zero: "generateLobbyCode Map.empty (\<lambda>_. 0, 0) = Inr ''0000''"
  unfolding generateLobbyCode_def
  by (subst generateLobbyCodeFrom.simps) (simp add: randomDigits_zero)

lemma demo_create:
  "createLobby Map.empty (\<lambda>_. 0, 0) 0 ''alice'' ''Alice''
     = (Inr \<lparr>lcode = ''0000'', leaderId = ''alice'', createdAt = 0,
              lplayers = [\<lparr>clientId = ''alice'', lname = ''Alice'', acceptedGame = False\<rparr>],
              selectedMazeSize = 10, status = OPEN\<rparr>,
        [''0000'' \<mapsto> \<lparr>lcode = ''0000'', leaderId = ''alice'', createdAt = 0,
              lplayers = [\<lparr>clientId = ''alice'', lname = ''Alice'', acceptedGame = False\<rparr>],
              selectedMazeSize = 10, status = OPEN\<rparr>])"
  by (simp add: createLobby_def gen_zero Let_def)

lemma demoReached_eq:
  "demoReached = [''0000'' \<mapsto> \<lparr>lcode = ''0000'', leaderId = ''alice'', createdAt = 0,
              lplayers = [\<lparr>clientId = ''alice'', lname = ''Alice'', acceptedGame = False\<rparr>,
                          \<lparr>clientId = ''bob'', lname = ''Bob'', acceptedGame = False\<rparr>],
              selectedMazeSize = 10, status = OPEN\<rparr>]"
  by (simp add: demoReached_def demo_create joinLobby_def MAX_PLAYERS_def Let_def)

text \<open>The leadership theorem at a store reached by one create and one join.\<close>
theorem leader_is_member_witness:
  "reachableLobbies demoReached
   \<and> (\<exists>lobby. demoReached ''0000'' = Some lobby
        \<and> map clientId (lplayers lobby) = [''alice'', ''bob''] \<and> leaderId lobby = ''alice''
        \<and> leaderId lobby \<in> clientId ` set (lplayers lobby)
        \<and> (\<exists>la lb. leaveLobby demoReached ''0000'' ''alice'' = (Some la, demoReached(''0000'' \<mapsto> la))
              \<and> leaderId la = ''bob''
              \<and> leaveLobby demoReached ''0000'' ''bob'' = (Some lb, demoReached(''0000'' \<mapsto> lb))
              \<and> leaderId lb = ''alice''))"
proof -
  let ?a = "\<lparr>clientId = ''alice'', lname = ''Alice'', acceptedGame = False\<rparr>"
  let ?b = "\<lparr>clientId = ''bob'', lname = ''Bob'', acceptedGame = False\<rparr>"
  let ?l = "\<lparr>lcode = ''0000'', leaderId = ''alice'', createdAt = 0, lplayers = [?a, ?b],
              selectedMazeSize = 10, status = OPEN\<rparr>"
  have r: "reachableLobbies demoReached"
    unfolding demoReached_def by (intro r_join r_create r_init)
  have g: "demoReached ''0000'' = Some ?l" by (simp add: demoReached_eq)
  have ps: "lplayers ?l = [?a, ?b]" by simp
  note T = leader_is_member[OF r g]
  from T have mem: "leaderId ?l \<in> clientId ` set (lplayers ?l)" by (elim conjE)
  from T have "\<forall>a b. lplayers ?l = [a, b] \<longrightarrow>
          clientId a \<noteq> clientId b
        \<and> (\<exists>la lb. leaveLobby demoReached ''0000'' (clientId a) = (Some la, demoReached(''0000'' \<mapsto> la))
              \<and> lplayers la = [b] \<and> leaderId la = clientId b
              \<and> leaveLobby demoReached ''0000'' (clientId b) = (Some lb, demoReached(''0000'' \<mapsto> lb))
              \<and> lplayers lb = [a] \<and> leaderId lb = clientId a)"
    by (elim conjE)
  from this[rule_format, OF ps] obtain la lb where
    "leaveLobby demoReached ''0000'' (clientId ?a) = (Some la, demoReached(''0000'' \<mapsto> la))"
    "leaderId la = clientId ?b"
    "leaveLobby demoReached ''0000'' (clientId ?b) = (Some lb, demoReached(''0000'' \<mapsto> lb))"
    "leaderId lb = clientId ?a"
    by (elim conjE exE)
  then have lv: "\<exists>la lb. leaveLobby demoReached ''0000'' ''alice'' = (Some la, demoReached(''0000'' \<mapsto> la))
              \<and> leaderId la = ''bob''
              \<and> leaveLobby demoReached ''0000'' ''bob'' = (Some lb, demoReached(''0000'' \<mapsto> lb))
              \<and> leaderId lb = ''alice''"
    by (intro exI[of _ la] exI[of _ lb]) simp
  have X: "demoReached ''0000'' = Some ?l
        \<and> map clientId (lplayers ?l) = [''alice'', ''bob''] \<and> leaderId ?l = ''alice''
        \<and> leaderId ?l \<in> clientId ` set (lplayers ?l)
        \<and> (\<exists>la lb. leaveLobby demoReached ''0000'' ''alice'' = (Some la, demoReached(''0000'' \<mapsto> la))
              \<and> leaderId la = ''bob''
              \<and> leaveLobby demoReached ''0000'' ''bob'' = (Some lb, demoReached(''0000'' \<mapsto> lb))
              \<and> leaderId lb = ''alice'')"
    using g mem lv by (intro conjI) simp_all
  show ?thesis
    by (rule conjI[OF r], rule exI[of _ ?l], rule X)
qed

lemma accepted_after_reset_leader:
  "i < length ps \<Longrightarrow>
   acceptedGame (updateFirst (\<lambda>p. clientId p = L) (\<lambda>p. p\<lparr>acceptedGame := True\<rparr>)
                   (map (\<lambda>p. p\<lparr>acceptedGame := False\<rparr>) ps) ! i)
     = (clientId (ps ! i) = L \<and> (\<forall>j<i. clientId (ps ! j) \<noteq> L))"
proof (induction ps arbitrary: i)
  case Nil
  then show ?case by simp
next
  case (Cons p ps)
  show ?case
  proof (cases i)
    case 0
    then show ?thesis by simp
  next
    case (Suc k)
    with Cons.prems have k: "k < length ps" by simp
    show ?thesis
    proof (cases "clientId p = L")
      case True
      with Suc k show ?thesis by auto
    next
      case False
      have "(\<forall>j<Suc k. clientId ((p # ps) ! j) \<noteq> L) = (\<forall>j<k. clientId (ps ! j) \<noteq> L)"
        using False by (auto simp: less_Suc_eq_0_disj)
      with False Suc Cons.IH[OF k] show ?thesis by simp
    qed
  qed
qed

lemma length_updateFirst: "length (updateFirst P f ps) = length ps"
  by (induction ps) auto

text \<open>
  \<open>startGame\<close> of the lobby manager writes the status only: on the demo lobby, led by alice,
  bob's acceptance stays set and alice's stays unset.
\<close>

theorem startGame_flags_counterexample:
  "demoLobbies ''4711'' = Some demoLobby \<and> leaderId demoLobby = ''alice''
   \<and> map clientId (lplayers demoLobby) = [''alice'', ''bob'']
   \<and> startGame demoLobbies ''4711''
        = (Inr (demoLobby\<lparr>status := STARTING\<rparr>), demoLobbies(''4711'' \<mapsto> demoLobby\<lparr>status := STARTING\<rparr>))
   \<and> map acceptedGame (lplayers (demoLobby\<lparr>status := STARTING\<rparr>)) = [False, True]"
  by (simp add: startGame_def demoLobbies_def demoLobby_def Let_def)

text \<open>
  Claim C8, as the code has it. \<open>startGame\<close> sets the status of the lobby to \<open>STARTING\<close> and
  changes nothing else. The acceptance flags are reset by the orchestrator: when the leader
  asks to start a lobby of two or more players (stored under its own code), after
  \<open>handleStartGame\<close> the lobby is \<open>STARTING\<close>, has the same players and leader, and a
  player's \<open>acceptedGame\<close> is true exactly for the first player whose \<open>clientId\<close> is the
  \<open>leaderId\<close>: with distinct client ids, exactly for the leader.
\<close>

theorem handleStartGame_flags:
  assumes "lobbies c = Some lobby" and "lcode lobby = c" and "leaderId lobby = cid"
    and "2 \<le> length (lplayers lobby)"
  shows "startGame lobbies c = (Inr (lobby\<lparr>status := STARTING\<rparr>), lobbies(c \<mapsto> lobby\<lparr>status := STARTING\<rparr>))
    \<and> (\<exists>lobby'. snd (handleStartGame lobbies (Some c) (Some cid)) = lobbies(c \<mapsto> lobby')
          \<and> status lobby' = STARTING \<and> leaderId lobby' = leaderId lobby
          \<and> map clientId (lplayers lobby') = map clientId (lplayers lobby)
          \<and> (\<forall>i<length (lplayers lobby).
                acceptedGame (lplayers lobby' ! i)
                  = (clientId (lplayers lobby ! i) = leaderId lobby
                     \<and> (\<forall>j<i. clientId (lplayers lobby ! j) \<noteq> leaderId lobby)))
          \<and> (distinct (map clientId (lplayers lobby)) \<longrightarrow>
                (\<forall>i<length (lplayers lobby).
                   acceptedGame (lplayers lobby' ! i) = (clientId (lplayers lobby' ! i) = leaderId lobby'))))"
proof
  show sg: "startGame lobbies c = (Inr (lobby\<lparr>status := STARTING\<rparr>), lobbies(c \<mapsto> lobby\<lparr>status := STARTING\<rparr>))"
    using assms(1) by (simp add: startGame_def Let_def)
  let ?ps = "updateFirst (\<lambda>p. clientId p = leaderId lobby) (\<lambda>p. p\<lparr>acceptedGame := True\<rparr>)
               (map (\<lambda>p. p\<lparr>acceptedGame := False\<rparr>) (lplayers lobby))"
  let ?l' = "lobby\<lparr>status := STARTING, lplayers := ?ps\<rparr>"
  have run: "snd (handleStartGame lobbies (Some c) (Some cid)) = lobbies(c \<mapsto> ?l')"
    using assms sg by (simp add: handleStartGame_def getLobby_def resetAcceptances_def Let_def)
  have ids: "map clientId (lplayers ?l') = map clientId (lplayers lobby)"
    by (simp add: map_clientId_updateFirst comp_def)
  have flags: "\<forall>i<length (lplayers lobby).
                acceptedGame (lplayers ?l' ! i)
                  = (clientId (lplayers lobby ! i) = leaderId lobby
                     \<and> (\<forall>j<i. clientId (lplayers lobby ! j) \<noteq> leaderId lobby))"
    by (simp add: accepted_after_reset_leader)
  have dflags: "acceptedGame (lplayers ?l' ! i) = (clientId (lplayers ?l' ! i) = leaderId ?l')"
    if d: "distinct (map clientId (lplayers lobby))" and i: "i < length (lplayers lobby)" for i
  proof -
    have same: "clientId (lplayers ?l' ! i) = clientId (lplayers lobby ! i)"
      using ids i by (metis length_map nth_map)
    have "\<forall>j<i. clientId (lplayers lobby ! j) \<noteq> leaderId lobby"
      if "clientId (lplayers lobby ! i) = leaderId lobby"
    proof (intro allI impI)
      fix j assume "j < i"
      then have "j < length (map clientId (lplayers lobby))" "i < length (map clientId (lplayers lobby))" "j \<noteq> i"
        using i by simp_all
      then have "map clientId (lplayers lobby) ! j \<noteq> map clientId (lplayers lobby) ! i"
        using d nth_eq_iff_index_eq by blast
      with \<open>j < i\<close> i that show "clientId (lplayers lobby ! j) \<noteq> leaderId lobby" by simp
    qed
    with flags i same show ?thesis by auto
  qed
  show "\<exists>lobby'. snd (handleStartGame lobbies (Some c) (Some cid)) = lobbies(c \<mapsto> lobby')
          \<and> status lobby' = STARTING \<and> leaderId lobby' = leaderId lobby
          \<and> map clientId (lplayers lobby') = map clientId (lplayers lobby)
          \<and> (\<forall>i<length (lplayers lobby).
                acceptedGame (lplayers lobby' ! i)
                  = (clientId (lplayers lobby ! i) = leaderId lobby
                     \<and> (\<forall>j<i. clientId (lplayers lobby ! j) \<noteq> leaderId lobby)))
          \<and> (distinct (map clientId (lplayers lobby)) \<longrightarrow>
                (\<forall>i<length (lplayers lobby).
                   acceptedGame (lplayers lobby' ! i) = (clientId (lplayers lobby' ! i) = leaderId lobby')))"
  proof -
    have d2: "distinct (map clientId (lplayers lobby)) \<longrightarrow>
                (\<forall>i<length (lplayers lobby).
                   acceptedGame (lplayers ?l' ! i) = (clientId (lplayers ?l' ! i) = leaderId ?l'))"
      using dflags by blast
    have st: "status ?l' = STARTING" "leaderId ?l' = leaderId lobby" by simp_all
    show ?thesis
      by (rule exI[of _ ?l'], intro conjI) (rule run st ids flags d2)+
  qed
qed

text \<open>The start-game theorem at the demo lobby: bob's acceptance is reset, alice's is set.\<close>
theorem handleStartGame_flags_witness:
  "\<exists>lobby'. snd (handleStartGame demoLobbies (Some ''4711'') (Some ''alice'')) = demoLobbies(''4711'' \<mapsto> lobby')
     \<and> status lobby' = STARTING
     \<and> map clientId (lplayers lobby') = [''alice'', ''bob'']
     \<and> map acceptedGame (lplayers lobby') = [True, False]"
proof -
  have h1: "demoLobbies ''4711'' = Some demoLobby" by (simp add: demoLobbies_def)
  have h2: "lcode demoLobby = ''4711''" and h3: "leaderId demoLobby = ''alice''"
    and h4: "2 \<le> length (lplayers demoLobby)"
    by (simp_all add: demoLobby_def)
  have ids: "map clientId (lplayers demoLobby) = [''alice'', ''bob'']" by (simp add: demoLobby_def)
  from handleStartGame_flags[of demoLobbies "''4711''" demoLobby "''alice''", OF h1 h2 h3 h4]
  obtain lobby' where l':
    "snd (handleStartGame demoLobbies (Some ''4711'') (Some ''alice'')) = demoLobbies(''4711'' \<mapsto> lobby')"
    "status lobby' = STARTING"
    "map clientId (lplayers lobby') = map clientId (lplayers demoLobby)"
    "\<forall>i<length (lplayers demoLobby).
        acceptedGame (lplayers lobby' ! i)
          = (clientId (lplayers demoLobby ! i) = leaderId demoLobby
             \<and> (\<forall>j<i. clientId (lplayers demoLobby ! j) \<noteq> leaderId demoLobby))"
    by (elim conjE exE)
  from l'(3) ids have "length (map clientId (lplayers lobby')) = 2" by simp
  then have "length (lplayers lobby') = Suc (Suc 0)" by simp
  then obtain p q where pq: "lplayers lobby' = [p, q]"
    by (auto simp: length_Suc_conv)
  have a0: "acceptedGame (lplayers lobby' ! 0) = True"
    using l'(4)[rule_format, of 0] by (simp add: demoLobby_def)
  have a1: "acceptedGame (lplayers lobby' ! 1) = False"
    using l'(4)[rule_format, of 1] by (simp add: demoLobby_def)
  have "map acceptedGame (lplayers lobby') = [True, False]"
    using a0 a1 unfolding pq by simp
  with l'(1,2,3) ids show ?thesis by (intro exI[of _ lobby']) simp
qed

section \<open>Properties of the maze generator\<close>

subsection \<open>Reading and writing rectangular grids\<close>
lemma cellAt_rect:
  "rect g h w \<Longrightarrow>
   cellAt g cy cx = (if 0 \<le> cy \<and> cy < int h \<and> 0 \<le> cx \<and> cx < int w
                     then Some (g ! nat cy ! nat cx) else None)"
  by (auto simp: cellAt_def rect_def)

lemma setCell_rect:
  assumes "rect g h w" "0 \<le> cy" "cy < int h" "0 \<le> cx" "cx < int w"
  shows "\<exists>g1. setCell g cy cx v = Inr g1 \<and> rect g1 h w
           \<and> (\<forall>a b. cellAt g1 a b = (if a = cy \<and> b = cx then Some v else cellAt g a b))"
proof -
  let ?g1 = "g[nat cy := (g ! nat cy)[nat cx := v]]"
  have len: "length g = h" and row: "length (g ! nat cy) = w"
    using assms by (auto simp: rect_def)
  have s: "setCell g cy cx v = Inr ?g1"
    using assms len row by (simp add: setCell_def)
  have r: "rect ?g1 h w"
    unfolding rect_def
  proof (intro conjI allI impI)
    show "length ?g1 = h" using len by simp
    fix i assume "i < h"
    then show "length (?g1 ! i) = w"
      using assms(1) len by (cases "i = nat cy") (auto simp: rect_def)
  qed
  have c: "cellAt ?g1 a b = (if a = cy \<and> b = cx then Some v else cellAt g a b)" for a b
  proof (cases "0 \<le> a \<and> a < int h \<and> 0 \<le> b \<and> b < int w")
    case False
    then show ?thesis using assms by (auto simp: cellAt_rect[OF r] cellAt_rect[OF assms(1)])
  next
    case True
    then have "nat a < length g" "nat b < w" using len by auto
    then show ?thesis
      using True assms len row
      by (auto simp: cellAt_rect[OF r] cellAt_rect[OF assms(1)] nth_list_update nat_eq_iff)
  qed
  from s r c show ?thesis by blast
qed

lemma pos_eq: "(p = \<lparr>px = a, py = b\<rparr>) = (px p = a \<and> py p = b)"
  by (cases p) auto

lemma walkSet_update:
  assumes "\<forall>a b. cellAt g1 a b = (if a = cy \<and> b = cx then Some 1 else cellAt g a b)"
  shows "walkSet g1 = insert \<lparr>px = cx, py = cy\<rparr> (walkSet g)"
  using assms by (auto simp: walkSet_def walkableCell_def isWalkable_def pos_eq)

lemma bin_update:
  assumes "bin g" "\<forall>a b. cellAt g1 a b = (if a = cy \<and> b = cx then Some 1 else cellAt g a b)"
  shows "bin g1"
  using assms unfolding bin_def by (metis option.inject)

lemma finite_zeros: "finite (zeros g h w)"
proof -
  let ?box = "(\<lambda>(cx, cy). \<lparr>px = cx, py = cy\<rparr>) ` ({0..<int w} \<times> {0..<int h})"
  have "zeros g h w \<subseteq> ?box"
  proof
    fix p assume "p \<in> zeros g h w"
    then have "(px p, py p) \<in> {0..<int w} \<times> {0..<int h}"
      by (auto simp: zeros_def interior_def)
    then have "(\<lambda>(cx, cy). \<lparr>px = cx, py = cy\<rparr>) (px p, py p) \<in> ?box" by (rule imageI)
    moreover have "\<lparr>px = px p, py = py p\<rparr> = p" by (cases p) simp
    ultimately show "p \<in> ?box" by simp
  qed
  then show ?thesis by (rule finite_subset) simp
qed

lemma zeros_update:
  assumes "\<forall>a b. cellAt g1 a b = (if a = cy \<and> b = cx then Some 1 else cellAt g a b)"
  shows "zeros g1 h w = zeros g h w - {\<lparr>px = cx, py = cy\<rparr>}"
  using assms by (auto simp: zeros_def pos_eq)

lemma card_zeros_update:
  assumes "\<forall>a b. cellAt g1 a b = (if a = cy \<and> b = cx then Some 1 else cellAt g a b)"
  shows "card (zeros g1 h w) \<le> card (zeros g h w)"
    and "\<lparr>px = cx, py = cy\<rparr> \<in> zeros g h w \<Longrightarrow> card (zeros g1 h w) < card (zeros g h w)"
proof -
  show "card (zeros g1 h w) \<le> card (zeros g h w)"
    unfolding zeros_update[OF assms] by (simp add: card_Diff_subset_Int card_mono finite_zeros)
  assume "\<lparr>px = cx, py = cy\<rparr> \<in> zeros g h w"
  then show "card (zeros g1 h w) < card (zeros g h w)"
    unfolding zeros_update[OF assms] by (intro card_Diff1_less finite_zeros)
qed

lemma zeros_mono:
  assumes "rect g h w" "bin g" "walkSet g \<subseteq> walkSet g'"
  shows "card (zeros g' h w) \<le> card (zeros g h w)"
proof -
  have "zeros g' h w \<subseteq> zeros g h w"
  proof
    fix p assume p: "p \<in> zeros g' h w"
    then have i: "interior h w p" and "p \<notin> walkSet g'"
      by (auto simp: zeros_def walkSet_def walkableCell_def isWalkable_def)
    with assms(3) have nw: "p \<notin> walkSet g" by auto
    from i obtain v where v: "cellAt g (py p) (px p) = Some v"
      by (auto simp: cellAt_rect[OF assms(1)] interior_def)
    with assms(2) have "v = 0 \<or> v = 1" by (auto simp: bin_def)
    with nw v have "v = 0" by (auto simp: walkSet_def walkableCell_def isWalkable_def)
    with v i show "p \<in> zeros g h w" by (simp add: zeros_def)
  qed
  then show ?thesis by (simp add: card_mono finite_zeros)
qed

lemma shuffleLoop_set:
  "k < length xs \<or> k = 0 \<Longrightarrow> set (fst (shuffleLoop k xs r)) = set xs \<and> length (fst (shuffleLoop k xs r)) = length xs"
proof (induction k arbitrary: xs r)
  case 0
  then show ?case by simp
next
  case (Suc k)
  then have k: "Suc k < length xs" by simp
  obtain j r1 where j: "randomBelow (Suc k + 1) r = (j, r1)" by (cases "randomBelow (Suc k + 1) r")
  then have "j < Suc k + 1" by (auto simp: randomBelow_def)
  then have jl: "j < length xs" using k by simp
  let ?xs2 = "xs[Suc k := xs ! j, j := xs ! Suc k]"
  have "set ?xs2 = set xs" using k jl by (simp add: set_swap)
  moreover have "length ?xs2 = length xs" by simp
  moreover have "k < length ?xs2 \<or> k = 0" using k by simp
  ultimately show ?case using Suc.IH[of ?xs2 r1] j by (simp add: Let_def)
qed

lemma shuffle_set: "set (fst (shuffle xs r)) = set xs"
  unfolding shuffle_def using shuffleLoop_set[of "length xs - 1" xs r] by (cases xs) auto

subsection \<open>carveMaze returns and keeps an invariant\<close>
lemma carveMazeOk_0: "carveMazeOk Q h w 0"
proof -
  have False if "interior h w \<lparr>px = x, py = y\<rparr>" "cellAt g y x = Some 0" "card (zeros g h w) \<le> 0"
    for g x y
  proof -
    have "\<lparr>px = x, py = y\<rparr> \<in> zeros g h w" using that by (simp add: zeros_def)
    then have "card (zeros g h w) \<noteq> 0" using finite_zeros[of g h w] by auto
    with that(3) show False by simp
  qed
  then show ?thesis unfolding carveMazeOk_def by blast
qed

lemma carveDirs_step:
  assumes st: "carveStep Q h w" and mz: "carveMazeOk Q h w fuel"
  shows "rect g h w \<Longrightarrow> bin g \<Longrightarrow> interior h w \<lparr>px = x, py = y\<rparr> \<Longrightarrow> odd x \<Longrightarrow> odd y
     \<Longrightarrow> \<lparr>px = x, py = y\<rparr> \<in> walkSet g \<Longrightarrow> card (zeros g h w) \<le> fuel
     \<Longrightarrow> set ds \<subseteq> set DIRECTIONS \<Longrightarrow> Q (walkSet g)
     \<Longrightarrow> \<exists>g' r'. carveDirs fuel ds g x y r = Some (Inr (g', r')) \<and> rect g' h w \<and> bin g'
               \<and> walkSet g \<subseteq> walkSet g' \<and> Q (walkSet g')"
proof (induction ds arbitrary: g r)
  case Nil
  then show ?case by simp
next
  case (Cons d rest)
  obtain dx dy where d: "d = (dx, dy)" by (cases d)
  let ?cur = "\<lparr>px = x, py = y\<rparr>"
  let ?n = "\<lparr>px = x + dx, py = y + dy\<rparr>"
  let ?c = "\<lparr>px = x + dx div 2, py = y + dy div 2\<rparr>"
  have rest: "set rest \<subseteq> set DIRECTIONS" and din: "(dx, dy) \<in> set DIRECTIONS"
    using Cons.prems(8) d by auto
  have hpos: "0 < h" using Cons.prems(3) by (auto simp: interior_def)
  have lg: "length g = h" and l0: "length (g ! 0) = w"
    using Cons.prems(1) hpos by (auto simp: rect_def)
  have cond: "(y + dy \<le> 0 \<or> y + dy \<ge> int (length g) - 1 \<or> x + dx \<le> 0 \<or> x + dx \<ge> int (length (g ! 0)) - 1)
                = (\<not> interior h w ?n)"
    by (auto simp: interior_def lg l0)
  note IH = Cons.IH[OF Cons.prems(1-7) rest Cons.prems(9)]
  show ?case
  proof (cases "interior h w ?n \<and> cellAt g (y + dy) (x + dx) = Some 0")
    case False
    then have "carveDirs fuel (d # rest) g x y r = carveDirs fuel rest g x y r"
      using cond unfolding d by (auto simp: Let_def)
    with IH[of r] show ?thesis by simp
  next
    case True
    then have inn: "interior h w ?n" and zn: "cellAt g (y + dy) (x + dx) = Some 0" by auto
    have crange: "0 \<le> y + dy div 2" "y + dy div 2 < int h" "0 \<le> x + dx div 2" "x + dx div 2 < int w"
      using Cons.prems(3) inn din by (auto simp: interior_def DIRECTIONS_def)
    from setCell_rect[OF Cons.prems(1) crange, of 1] obtain g1 where
      g1: "setCell g (y + dy div 2) (x + dx div 2) 1 = Inr g1" "rect g1 h w"
        "\<forall>a b. cellAt g1 a b = (if a = y + dy div 2 \<and> b = x + dx div 2 then Some 1 else cellAt g a b)"
      by blast
    have w1: "walkSet g1 = insert ?c (walkSet g)" using g1(3) by (rule walkSet_update)
    have b1: "bin g1" using Cons.prems(2) g1(3) by (rule bin_update)
    have z1: "card (zeros g1 h w) \<le> fuel"
      using card_zeros_update(1)[OF g1(3), of h w] Cons.prems(7) by simp
    have ncn: "\<not> (y + dy = y + dy div 2 \<and> x + dx = x + dx div 2)"
      using din by (auto simp: DIRECTIONS_def)
    have zn1: "cellAt g1 (y + dy) (x + dx) = Some 0" using g1(3) zn ncn by simp
    have nV: "?n \<notin> walkSet g" using zn by (simp add: walkSet_def walkableCell_def isWalkable_def)
    have oddn: "odd (x + dx)" "odd (y + dy)"
      using Cons.prems(4,5) din by (auto simp: DIRECTIONS_def)
    have "Q (insert ?n (insert ?c (walkSet g)))"
      using st Cons.prems(3,4,5,6,9) din inn nV unfolding carveStep_def
      by (metis Position.select_convs(1,2))
    then have q1: "Q (insert ?n (walkSet g1))" by (simp add: w1)
    from mz[unfolded carveMazeOk_def, rule_format, of g1 "x + dx" "y + dy" r]
      g1(2) b1 inn oddn zn1 z1 q1
    obtain g2 r2 where g2: "carveMaze fuel g1 (x + dx) (y + dy) r = Some (Inr (g2, r2))"
      "rect g2 h w" "bin g2" "insert ?n (walkSet g1) \<subseteq> walkSet g2" "Q (walkSet g2)"
      by blast
    have sub12: "walkSet g1 \<subseteq> walkSet g2" using g2(4) by auto
    have cur2: "?cur \<in> walkSet g2" using Cons.prems(6) w1 sub12 by auto
    have z2: "card (zeros g2 h w) \<le> fuel"
      using zeros_mono[OF g1(2) b1 sub12] z1 by simp
    from Cons.IH[OF g2(2,3) Cons.prems(3,4,5) cur2 z2 rest g2(5), of r2]
    obtain g' r' where g': "carveDirs fuel rest g2 x y r2 = Some (Inr (g', r'))" "rect g' h w" "bin g'"
      "walkSet g2 \<subseteq> walkSet g'" "Q (walkSet g')"
      by blast
    have run: "carveDirs fuel (d # rest) g x y r = Some (Inr (g', r'))"
      using cond inn zn g1(1) g2(1) g'(1) unfolding d by (simp add: Let_def)
    have "walkSet g \<subseteq> walkSet g'" using w1 sub12 g'(4) by auto
    with run g'(2,3,5) show ?thesis by blast
  qed
qed

lemma carveDirsOk_from: "carveStep Q h w \<Longrightarrow> carveMazeOk Q h w fuel \<Longrightarrow> carveDirsOk Q h w fuel"
  unfolding carveDirsOk_def using carveDirs_step by blast

lemma carveMazeOk_Suc:
  assumes "carveDirsOk Q h w fuel"
  shows "carveMazeOk Q h w (Suc fuel)"
  unfolding carveMazeOk_def
proof (intro allI impI)
  fix g x y r
  assume a: "rect g h w \<and> bin g \<and> interior h w \<lparr>px = x, py = y\<rparr> \<and> odd x \<and> odd y
        \<and> cellAt g y x = Some 0 \<and> card (zeros g h w) \<le> Suc fuel
        \<and> Q (insert \<lparr>px = x, py = y\<rparr> (walkSet g))"
  let ?cur = "\<lparr>px = x, py = y\<rparr>"
  have range: "0 \<le> y" "y < int h" "0 \<le> x" "x < int w" using a by (auto simp: interior_def)
  from a have r0: "rect g h w" by simp
  from setCell_rect[OF r0 range, of 1] obtain g1 where
    g1: "setCell g y x 1 = Inr g1" "rect g1 h w"
        "\<forall>a b. cellAt g1 a b = (if a = y \<and> b = x then Some 1 else cellAt g a b)"
    by blast
  have w1: "walkSet g1 = insert ?cur (walkSet g)" using g1(3) by (rule walkSet_update)
  have b1: "bin g1" using a g1(3) bin_update by blast
  have "?cur \<in> zeros g h w" using a by (simp add: zeros_def)
  from card_zeros_update(2)[OF g1(3) this] a have z1: "card (zeros g1 h w) \<le> fuel" by simp
  obtain dirs r1 where sh: "shuffle DIRECTIONS r = (dirs, r1)" by (cases "shuffle DIRECTIONS r")
  have ds: "set dirs \<subseteq> set DIRECTIONS" using shuffle_set[of DIRECTIONS r] sh by simp
  have c1: "?cur \<in> walkSet g1" using w1 by simp
  from assms[unfolded carveDirsOk_def, rule_format, of g1 x y dirs r1]
    g1(2) b1 a c1 z1 ds w1
  obtain g' r' where g': "carveDirs fuel dirs g1 x y r1 = Some (Inr (g', r'))" "rect g' h w" "bin g'"
      "walkSet g1 \<subseteq> walkSet g'" "Q (walkSet g')"
    by auto
  have "carveMaze (Suc fuel) g x y r = Some (Inr (g', r'))"
    using g1(1) sh g'(1) by simp
  with g'(2,3,4,5) w1 show "\<exists>g' r'. carveMaze (Suc fuel) g x y r = Some (Inr (g', r')) \<and> rect g' h w \<and> bin g'
               \<and> insert ?cur (walkSet g) \<subseteq> walkSet g' \<and> Q (walkSet g')"
    by auto
qed

lemma carveMazeOk_all: "carveStep Q h w \<Longrightarrow> carveMazeOk Q h w fuel"
proof (induction fuel)
  case 0
  show ?case by (rule carveMazeOk_0)
next
  case (Suc fuel)
  then show ?case by (intro carveMazeOk_Suc carveDirsOk_from) simp_all
qed

subsection \<open>Trees of cells grow by leaves\<close>
lemma adjacent_sym: "adjacent p q = adjacent q p"
  by (auto simp: adjacent_def)

lemma adjacent_irrefl: "\<not> adjacent p p"
  by (simp add: adjacent_def)

lemma walk_subset: "walk V ps \<Longrightarrow> set ps \<subseteq> V"
  by (induction V ps rule: walk.induct) auto

lemma walk_mono: "walk V ps \<Longrightarrow> V \<subseteq> V' \<Longrightarrow> walk V' ps"
  by (induction V ps rule: walk.induct) auto

lemma walk_restrict: "walk V' ps \<Longrightarrow> set ps \<subseteq> V \<Longrightarrow> walk V ps"
  by (induction V' ps rule: walk.induct) auto

lemma walk_Cons: "walk V (p # ps) = (p \<in> V \<and> (ps \<noteq> [] \<longrightarrow> adjacent p (hd ps) \<and> walk V ps))"
  by (cases ps) auto

lemma walk_snoc: "walk V (ps @ [p]) = (p \<in> V \<and> (ps \<noteq> [] \<longrightarrow> adjacent (last ps) p \<and> walk V ps))"
proof (induction V ps rule: walk.induct)
  case (1 V)
  then show ?case by simp
next
  case (2 V q)
  then show ?case by auto
next
  case (3 V a b ps)
  then show ?case by auto
qed

lemma walk_rev: "walk V (rev ps) = walk V ps"
proof (induction ps)
  case Nil
  then show ?case by simp
next
  case (Cons p ps)
  show ?case
  proof (cases "ps = []")
    case True
    then show ?thesis by simp
  next
    case False
    then have "last (rev ps) = hd ps" by (simp add: last_rev)
    with False Cons show ?thesis
      by (simp add: walk_snoc walk_Cons adjacent_sym)
  qed
qed

lemma simplePathIn_rev: "simplePathIn V a b ps = simplePathIn V b a (rev ps)"
  by (auto simp: simplePathIn_def walk_rev hd_rev last_rev)

lemma leaf_not_inside:
  assumes only: "\<forall>q\<in>V. adjacent v q \<longrightarrow> q = u" and vV: "v \<notin> V"
  shows "walk (insert v V) (a # ps) \<Longrightarrow> distinct (a # ps) \<Longrightarrow> a \<noteq> v \<Longrightarrow> last (a # ps) \<noteq> v
           \<Longrightarrow> v \<notin> set (a # ps)"
proof (induction ps arbitrary: a)
  case Nil
  then show ?case by simp
next
  case (Cons b qs)
  show ?case
  proof (cases "b = v")
    case True
    with Cons.prems(4) obtain c rs where qs: "qs = c # rs" by (cases qs) auto
    have aV: "a \<in> V" using Cons.prems(1,3) by auto
    have av: "adjacent v a" using Cons.prems(1) True by (simp add: adjacent_sym)
    have "c \<noteq> v" using Cons.prems(2) True qs by auto
    moreover have "c \<in> insert v V" using Cons.prems(1) qs walk_subset by fastforce
    ultimately have cV: "c \<in> V" by simp
    have vc: "adjacent v c" using Cons.prems(1) True qs by simp
    from only aV av have "a = u" by blast
    moreover from only cV vc have "c = u" by blast
    ultimately have "a = c" by simp
    with Cons.prems(2) qs show ?thesis by simp
  next
    case False
    have "v \<notin> set (b # qs)"
      using Cons.IH[of b] Cons.prems False by (simp add: walk_Cons)
    with Cons.prems(3) show ?thesis by simp
  qed
qed

lemma simplePathIn_insert_old:
  assumes only: "\<forall>q\<in>V. adjacent v q \<longrightarrow> q = u" and vV: "v \<notin> V" and "a \<in> V" "b \<in> V"
  shows "simplePathIn (insert v V) a b ps = simplePathIn V a b ps"
proof
  assume p: "simplePathIn (insert v V) a b ps"
  then obtain c cs where ps: "ps = c # cs" by (cases ps) (auto simp: simplePathIn_def)
  have "a \<noteq> v" "b \<noteq> v" using assms by auto
  with p ps have "v \<notin> set ps"
    using leaf_not_inside[OF only vV, of c cs] by (auto simp: simplePathIn_def)
  moreover have "set ps \<subseteq> insert v V" using p by (auto simp: simplePathIn_def dest: walk_subset)
  ultimately have "set ps \<subseteq> V" by auto
  with p show "simplePathIn V a b ps" by (auto simp: simplePathIn_def intro: walk_restrict)
next
  assume "simplePathIn V a b ps"
  then show "simplePathIn (insert v V) a b ps"
    by (auto simp: simplePathIn_def intro: walk_mono)
qed

lemma simplePathIn_from_leaf:
  assumes only: "\<forall>q\<in>V. adjacent v q \<longrightarrow> q = u" and vV: "v \<notin> V" and uV: "u \<in> V"
    and vu: "adjacent v u" and bV: "b \<in> V"
  shows "simplePathIn (insert v V) v b ps = (\<exists>qs. ps = v # qs \<and> simplePathIn V u b qs)"
proof
  assume p: "simplePathIn (insert v V) v b ps"
  then obtain qs where ps: "ps = v # qs" by (cases ps) (auto simp: simplePathIn_def)
  have "b \<noteq> v" using bV vV by auto
  with p ps have ne: "qs \<noteq> []" by (auto simp: simplePathIn_def)
  from p ps ne have w: "adjacent v (hd qs)" "walk (insert v V) qs" "distinct qs" "v \<notin> set qs"
    "last qs = b"
    by (auto simp: simplePathIn_def walk_Cons)
  have "set qs \<subseteq> insert v V" using w(2) by (rule walk_subset)
  with w(4) have sub: "set qs \<subseteq> V" by auto
  then have "hd qs \<in> V" using ne by (meson hd_in_set subsetD)
  with only w(1) have "hd qs = u" by blast
  with ne w sub have "simplePathIn V u b qs"
    by (auto simp: simplePathIn_def intro: walk_restrict)
  with ps show "\<exists>qs. ps = v # qs \<and> simplePathIn V u b qs" by blast
next
  assume "\<exists>qs. ps = v # qs \<and> simplePathIn V u b qs"
  then obtain qs where ps: "ps = v # qs" and q: "simplePathIn V u b qs" by blast
  then have "set qs \<subseteq> V" by (auto simp: simplePathIn_def dest: walk_subset)
  with vV have "v \<notin> set qs" by auto
  with ps q vu show "simplePathIn (insert v V) v b ps"
    by (auto simp: simplePathIn_def walk_Cons intro: walk_mono)
qed

lemma treeSet_leaf:
  assumes t: "treeSet V" and only: "\<forall>q\<in>V. adjacent v q \<longrightarrow> q = u" and vV: "v \<notin> V"
    and uV: "u \<in> V" and vu: "adjacent v u"
  shows "treeSet (insert v V)"
  unfolding treeSet_def
proof (intro ballI)
  fix a b assume a: "a \<in> insert v V" and b: "b \<in> insert v V"
  have from_v: "\<exists>!ps. simplePathIn (insert v V) v c ps" if cV: "c \<in> V" for c
  proof -
    from t uV cV obtain q where q: "simplePathIn V u c q" "\<And>q'. simplePathIn V u c q' \<Longrightarrow> q' = q"
      unfolding treeSet_def by blast
    show ?thesis
      unfolding simplePathIn_from_leaf[OF only vV uV vu cV] using q by blast
  qed
  show "\<exists>!ps. simplePathIn (insert v V) a b ps"
  proof (cases "a = v")
    case av: True
    show ?thesis
    proof (cases "b = v")
      case True
      have "simplePathIn (insert v V) v v ps = (ps = [v])" for ps
      proof
        assume p: "simplePathIn (insert v V) v v ps"
        then obtain qs where ps: "ps = v # qs" by (cases ps) (auto simp: simplePathIn_def)
        have "qs = []"
        proof (rule ccontr)
          assume "qs \<noteq> []"
          with p ps have "last qs = v" "v \<notin> set qs" by (auto simp: simplePathIn_def)
          with \<open>qs \<noteq> []\<close> show False using last_in_set by fastforce
        qed
        with ps show "ps = [v]" by simp
      next
        assume "ps = [v]"
        then show "simplePathIn (insert v V) v v ps" by (simp add: simplePathIn_def)
      qed
      with av True show ?thesis by simp
    next
      case False
      with b have "b \<in> V" by simp
      from from_v[OF this] av show ?thesis by simp
    qed
  next
    case anv: False
    with a have aV: "a \<in> V" by simp
    show ?thesis
    proof (cases "b = v")
      case True
      from from_v[OF aV] obtain q where q: "simplePathIn (insert v V) v a q"
        "\<And>q'. simplePathIn (insert v V) v a q' \<Longrightarrow> q' = q"
        by blast
      have "simplePathIn (insert v V) a v (rev q)"
        using q(1) simplePathIn_rev[of "insert v V" a v "rev q"] by simp
      moreover have "ps = rev q" if "simplePathIn (insert v V) a v ps" for ps
      proof -
        from that have "simplePathIn (insert v V) v a (rev ps)"
          using simplePathIn_rev[of "insert v V" a v ps] by simp
        then have "rev ps = q" by (rule q(2))
        then show ?thesis by (metis rev_rev_ident)
      qed
      ultimately show ?thesis using True by blast
    next
      case False
      with b have bV: "b \<in> V" by simp
      show ?thesis
        unfolding simplePathIn_insert_old[OF only vV aV bV]
        using t aV bV unfolding treeSet_def by blast
    qed
  qed
qed

lemma treeSet_single: "treeSet {v}"
  unfolding treeSet_def
proof (intro ballI)
  fix a b assume "a \<in> {v}" "b \<in> {v}"
  then have ab: "a = v" "b = v" by simp_all
  have "simplePathIn {v} v v ps = (ps = [v])" for ps
  proof
    assume p: "simplePathIn {v} v v ps"
    then obtain qs where ps: "ps = v # qs" by (cases ps) (auto simp: simplePathIn_def)
    have "qs = []"
    proof (rule ccontr)
      assume "qs \<noteq> []"
      with p ps have "last qs = v" "v \<notin> set qs" by (auto simp: simplePathIn_def)
      with \<open>qs \<noteq> []\<close> show False using last_in_set by fastforce
    qed
    with ps show "ps = [v]" by simp
  next
    assume "ps = [v]"
    then show "simplePathIn {v} v v ps" by (simp add: simplePathIn_def)
  qed
  with ab show "\<exists>!ps. simplePathIn {v} a b ps" by simp
qed

subsection \<open>Carving keeps the walkable cells a tree\<close>
lemma adjacent_cases:
  "adjacent p q =
     ((px q = px p + 1 \<and> py q = py p) \<or> (px q = px p - 1 \<and> py q = py p)
      \<or> (px q = px p \<and> py q = py p + 1) \<or> (px q = px p \<and> py q = py p - 1))"
  unfolding adjacent_def by arith

lemma pos_eqI: "px p = px q \<Longrightarrow> py p = py q \<Longrightarrow> p = (q :: Position)"
  by (cases p, cases q) simp

lemma good_step_unit:
  assumes g: "Good h w V" and cur: "cur \<in> V" and ox: "odd (px cur)" and oy: "odd (py cur)"
    and e: "(ex, ey) = (0, -1) \<or> (ex, ey) = (1, 0) \<or> (ex, ey) = (0, 1) \<or> (ex, ey) = (-1, 0)"
    and inn: "interior h w \<lparr>px = px cur + 2 * ex, py = py cur + 2 * ey\<rparr>"
    and nV: "\<lparr>px = px cur + 2 * ex, py = py cur + 2 * ey\<rparr> \<notin> V"
  shows "Good h w (insert \<lparr>px = px cur + 2 * ex, py = py cur + 2 * ey\<rparr>
                    (insert \<lparr>px = px cur + ex, py = py cur + ey\<rparr> V))"
proof -
  let ?n = "\<lparr>px = px cur + 2 * ex, py = py cur + 2 * ey\<rparr>"
  let ?c = "\<lparr>px = px cur + ex, py = py cur + ey\<rparr>"
  from g have t: "treeSet V"
    and par: "\<And>p. p \<in> V \<Longrightarrow> interior h w p \<and> (odd (px p) \<or> odd (py p))"
    and conx: "\<And>p. p \<in> V \<Longrightarrow> even (px p) \<Longrightarrow> \<lparr>px = px p - 1, py = py p\<rparr> \<in> V \<and> \<lparr>px = px p + 1, py = py p\<rparr> \<in> V"
    and cony: "\<And>p. p \<in> V \<Longrightarrow> even (py p) \<Longrightarrow> \<lparr>px = px p, py = py p - 1\<rparr> \<in> V \<and> \<lparr>px = px p, py = py p + 1\<rparr> \<in> V"
    unfolding Good_def by blast+
  have icur: "interior h w cur" using par[OF cur] by simp
  have cV: "?c \<notin> V"
  proof
    assume c: "?c \<in> V"
    from e show False
    proof (elim disjE)
      assume "(ex, ey) = (0, -1)"
      then show False using cony[OF c] oy nV by (simp add: algebra_simps)
    next
      assume "(ex, ey) = (1, 0)"
      then show False using conx[OF c] ox nV by (simp add: algebra_simps)
    next
      assume "(ex, ey) = (0, 1)"
      then show False using cony[OF c] oy nV by (simp add: algebra_simps)
    next
      assume "(ex, ey) = (-1, 0)"
      then show False using conx[OF c] ox nV by (simp add: algebra_simps)
    qed
  qed
  have only_c: "\<forall>q\<in>V. adjacent ?c q \<longrightarrow> q = cur"
  proof (intro ballI impI)
    fix q assume q: "q \<in> V" and a: "adjacent ?c q"
    have pq: "odd (px q) \<or> odd (py q)" using par[OF q] by simp
    have qn: "q \<noteq> ?n" using q nV by auto
    from e show "q = cur"
    proof (elim disjE)
      assume "(ex, ey) = (0, -1)"
      then show ?thesis using a pq qn ox oy by (auto simp: adjacent_cases pos_eq intro!: pos_eqI)
    next
      assume "(ex, ey) = (1, 0)"
      then show ?thesis using a pq qn ox oy by (auto simp: adjacent_cases pos_eq intro!: pos_eqI)
    next
      assume "(ex, ey) = (0, 1)"
      then show ?thesis using a pq qn ox oy by (auto simp: adjacent_cases pos_eq intro!: pos_eqI)
    next
      assume "(ex, ey) = (-1, 0)"
      then show ?thesis using a pq qn ox oy by (auto simp: adjacent_cases pos_eq intro!: pos_eqI)
    qed
  qed
  have ac: "adjacent ?c cur" using e by (auto simp: adjacent_cases)
  have t1: "treeSet (insert ?c V)"
    by (rule treeSet_leaf[OF t only_c cV cur ac])
  have nc: "?n \<noteq> ?c" using e by auto
  have nV1: "?n \<notin> insert ?c V" using nV nc by simp
  have only_n: "\<forall>q\<in>insert ?c V. adjacent ?n q \<longrightarrow> q = ?c"
  proof (intro ballI impI)
    fix q assume q: "q \<in> insert ?c V" and a: "adjacent ?n q"
    show "q = ?c"
    proof (rule ccontr)
      assume "q \<noteq> ?c"
      with q have qV: "q \<in> V" by simp
      have on: "odd (px ?n)" "odd (py ?n)" using ox oy by simp_all
      from a have "(px q = px ?n + 1 \<and> py q = py ?n) \<or> (px q = px ?n - 1 \<and> py q = py ?n)
        \<or> (px q = px ?n \<and> py q = py ?n + 1) \<or> (px q = px ?n \<and> py q = py ?n - 1)"
        by (simp only: adjacent_cases)
      then have "?n \<in> V"
      proof (elim disjE)
        assume h: "px q = px ?n + 1 \<and> py q = py ?n"
        then have "even (px q)" using on by simp
        from conx[OF qV this] have "\<lparr>px = px q - 1, py = py q\<rparr> \<in> V" by simp
        with h show ?thesis by simp
      next
        assume h: "px q = px ?n - 1 \<and> py q = py ?n"
        then have "even (px q)" using on by simp
        from conx[OF qV this] have "\<lparr>px = px q + 1, py = py q\<rparr> \<in> V" by simp
        with h show ?thesis by simp
      next
        assume h: "px q = px ?n \<and> py q = py ?n + 1"
        then have "even (py q)" using on by simp
        from cony[OF qV this] have "\<lparr>px = px q, py = py q - 1\<rparr> \<in> V" by simp
        with h show ?thesis by simp
      next
        assume h: "px q = px ?n \<and> py q = py ?n - 1"
        then have "even (py q)" using on by simp
        from cony[OF qV this] have "\<lparr>px = px q, py = py q + 1\<rparr> \<in> V" by simp
        with h show ?thesis by simp
      qed
      with nV show False by simp
    qed
  qed
  have anc: "adjacent ?n ?c" using e by (auto simp: adjacent_cases)
  have t2: "treeSet (insert ?n (insert ?c V))"
    by (rule treeSet_leaf[OF t1 only_n nV1 _ anc]) simp
  have ic: "interior h w ?c" using icur inn e by (auto simp: interior_def)
  have pc: "odd (px ?c) \<or> odd (py ?c)" using ox oy e by auto
  have pn: "odd (px ?n) \<or> odd (py ?n)" using ox by simp
  have par2: "\<forall>p\<in>insert ?n (insert ?c V). interior h w p \<and> (odd (px p) \<or> odd (py p))"
    using par ic pc inn pn by blast
  have curV: "\<lparr>px = px cur, py = py cur\<rparr> \<in> V" using cur by (cases cur) simp
  have con_c: "(even (px ?c) \<longrightarrow> \<lparr>px = px ?c - 1, py = py ?c\<rparr> \<in> insert ?n (insert ?c V)
                                  \<and> \<lparr>px = px ?c + 1, py = py ?c\<rparr> \<in> insert ?n (insert ?c V))
             \<and> (even (py ?c) \<longrightarrow> \<lparr>px = px ?c, py = py ?c - 1\<rparr> \<in> insert ?n (insert ?c V)
                                  \<and> \<lparr>px = px ?c, py = py ?c + 1\<rparr> \<in> insert ?n (insert ?c V))"
    using e ox oy curV by auto
  have con_n: "(even (px ?n) \<longrightarrow> \<lparr>px = px ?n - 1, py = py ?n\<rparr> \<in> insert ?n (insert ?c V)
                                  \<and> \<lparr>px = px ?n + 1, py = py ?n\<rparr> \<in> insert ?n (insert ?c V))
             \<and> (even (py ?n) \<longrightarrow> \<lparr>px = px ?n, py = py ?n - 1\<rparr> \<in> insert ?n (insert ?c V)
                                  \<and> \<lparr>px = px ?n, py = py ?n + 1\<rparr> \<in> insert ?n (insert ?c V))"
    using ox oy by simp
  have con2: "\<forall>p\<in>insert ?n (insert ?c V).
        (even (px p) \<longrightarrow> \<lparr>px = px p - 1, py = py p\<rparr> \<in> insert ?n (insert ?c V)
                          \<and> \<lparr>px = px p + 1, py = py p\<rparr> \<in> insert ?n (insert ?c V))
      \<and> (even (py p) \<longrightarrow> \<lparr>px = px p, py = py p - 1\<rparr> \<in> insert ?n (insert ?c V)
                          \<and> \<lparr>px = px p, py = py p + 1\<rparr> \<in> insert ?n (insert ?c V))"
  proof (intro ballI)
    fix p assume "p \<in> insert ?n (insert ?c V)"
    then consider "p = ?n" | "p = ?c" | "p \<in> V" by blast
    then show "(even (px p) \<longrightarrow> \<lparr>px = px p - 1, py = py p\<rparr> \<in> insert ?n (insert ?c V)
                          \<and> \<lparr>px = px p + 1, py = py p\<rparr> \<in> insert ?n (insert ?c V))
      \<and> (even (py p) \<longrightarrow> \<lparr>px = px p, py = py p - 1\<rparr> \<in> insert ?n (insert ?c V)
                          \<and> \<lparr>px = px p, py = py p + 1\<rparr> \<in> insert ?n (insert ?c V))"
    proof cases
      case 1
      with con_n show ?thesis by blast
    next
      case 2
      with con_c show ?thesis by blast
    next
      case 3
      with conx[OF 3] cony[OF 3] show ?thesis by blast
    qed
  qed
  from t2 par2 con2 show ?thesis unfolding Good_def by blast
qed

lemma carveStep_Good: "carveStep (Good h w) h w"
  unfolding carveStep_def
proof (intro allI impI)
  fix V cur dx dy
  assume a: "Good h w V \<and> cur \<in> V \<and> interior h w cur \<and> odd (px cur) \<and> odd (py cur)
        \<and> (dx, dy) \<in> set DIRECTIONS
        \<and> interior h w \<lparr>px = px cur + dx, py = py cur + dy\<rparr>
        \<and> \<lparr>px = px cur + dx, py = py cur + dy\<rparr> \<notin> V"
  then have "(dx, dy) = (0, -2) \<or> (dx, dy) = (2, 0) \<or> (dx, dy) = (0, 2) \<or> (dx, dy) = (-2, 0)"
    by (auto simp: DIRECTIONS_def)
  then have e: "(dx div 2, dy div 2) = (0, -1) \<or> (dx div 2, dy div 2) = (1, 0)
      \<or> (dx div 2, dy div 2) = (0, 1) \<or> (dx div 2, dy div 2) = (-1, 0)"
    and d2: "dx = 2 * (dx div 2)" "dy = 2 * (dy div 2)"
    by auto
  from a have inn: "interior h w \<lparr>px = px cur + 2 * (dx div 2), py = py cur + 2 * (dy div 2)\<rparr>"
    and nV: "\<lparr>px = px cur + 2 * (dx div 2), py = py cur + 2 * (dy div 2)\<rparr> \<notin> V"
    using d2 by simp_all
  from good_step_unit[OF _ _ _ _ e inn nV] a
  have "Good h w (insert \<lparr>px = px cur + 2 * (dx div 2), py = py cur + 2 * (dy div 2)\<rparr>
                    (insert \<lparr>px = px cur + dx div 2, py = py cur + dy div 2\<rparr> V))"
    by blast
  then show "Good h w (insert \<lparr>px = px cur + dx, py = py cur + dy\<rparr>
                 (insert \<lparr>px = px cur + dx div 2, py = py cur + dy div 2\<rparr> V))"
    using d2 by simp
qed

lemma Good_single:
  assumes "interior h w v" "odd (px v)" "odd (py v)"
  shows "Good h w {v}"
  using assms unfolding Good_def by (simp add: treeSet_single)

subsection \<open>From the empty grid to the exit\<close>
lemma card_zeros_le: "card (zeros g h w) \<le> h * w"
proof -
  let ?box = "(\<lambda>(cx, cy). \<lparr>px = cx, py = cy\<rparr>) ` ({0..<int w} \<times> {0..<int h})"
  have "zeros g h w \<subseteq> ?box"
  proof
    fix p assume "p \<in> zeros g h w"
    then have "(px p, py p) \<in> {0..<int w} \<times> {0..<int h}"
      by (auto simp: zeros_def interior_def)
    then have "(\<lambda>(cx, cy). \<lparr>px = cx, py = cy\<rparr>) (px p, py p) \<in> ?box" by (rule imageI)
    moreover have "\<lparr>px = px p, py = py p\<rparr> = p" by (cases p) simp
    ultimately show "p \<in> ?box" by simp
  qed
  then have "card (zeros g h w) \<le> card ?box" by (intro card_mono) simp_all
  also have "\<dots> \<le> card ({0..<int w} \<times> {0..<int h})" by (intro card_image_le) simp
  also have "\<dots> = h * w" by (simp add: card_cartesian_product)
  finally show ?thesis .
qed

lemma emptyGrid_props:
  assumes "1 \<le> sz" and "h = nat (sz * 2 + 1)"
  shows "rect (emptyGrid sz) h h" and "bin (emptyGrid sz)" and "walkSet (emptyGrid sz) = {}"
    and "cellAt (emptyGrid sz) 1 1 = Some 0" and "carveFuel (emptyGrid sz) = h * h + 1"
    and "3 \<le> h" and "interior h h \<lparr>px = 1, py = 1\<rparr>"
proof -
  show h3: "3 \<le> h" using assms by simp
  show r: "rect (emptyGrid sz) h h" using assms by (simp add: rect_def emptyGrid_def)
  have c: "v = 0" if "cellAt (emptyGrid sz) a b = Some v" for a b v
  proof -
    from that have ab: "0 \<le> a" "a < int h" "0 \<le> b" "b < int h"
      and v: "v = emptyGrid sz ! nat a ! nat b"
      by (auto simp: cellAt_rect[OF r] split: if_splits)
    have "nat a < h" "nat b < h" using ab by auto
    with v assms(2) show ?thesis by (simp add: emptyGrid_def)
  qed
  then show "bin (emptyGrid sz)" unfolding bin_def by blast
  show "walkSet (emptyGrid sz) = {}"
    using c[of _ _ 1] c[of _ _ 2] by (fastforce simp: walkSet_def walkableCell_def isWalkable_def)
  have "emptyGrid sz ! nat 1 ! nat 1 = 0"
    using h3 assms(2) by (simp add: emptyGrid_def)
  then show "cellAt (emptyGrid sz) 1 1 = Some 0"
    using h3 by (simp add: cellAt_rect[OF r])
  show "carveFuel (emptyGrid sz) = h * h + 1"
    using h3 assms by (simp add: carveFuel_def emptyGrid_def)
  show "interior h h \<lparr>px = 1, py = 1\<rparr>" using h3 by (simp add: interior_def)
qed

lemma carve_from_start:
  assumes sz: "1 \<le> sz" and h: "h = nat (sz * 2 + 1)"
    and st: "carveStep Q h h" and q0: "Q {\<lparr>px = 1, py = 1\<rparr>}"
  shows "\<exists>g1 r1. carveMaze (carveFuel (emptyGrid sz)) (emptyGrid sz) 1 1 r = Some (Inr (g1, r1))
           \<and> rect g1 h h \<and> bin g1 \<and> \<lparr>px = 1, py = 1\<rparr> \<in> walkSet g1 \<and> Q (walkSet g1)"
proof -
  note e = emptyGrid_props[OF sz h]
  have z: "card (zeros (emptyGrid sz) h h) \<le> carveFuel (emptyGrid sz)"
    using card_zeros_le[of "emptyGrid sz" h h] e(5) by simp
  have q: "Q (insert \<lparr>px = 1, py = 1\<rparr> (walkSet (emptyGrid sz)))" using q0 e(3) by simp
  from carveMazeOk_all[OF st, of "carveFuel (emptyGrid sz)", unfolded carveMazeOk_def, rule_format,
      of "emptyGrid sz" 1 1 r] e(1,2,4,7) z q
  show ?thesis by auto
qed

lemma set_exitsTopBottom:
  "(p \<in> set (exitsTopBottom g maxX maxY)) =
     (1 \<le> px p \<and> px p \<le> maxX - 1
      \<and> ((py p = 0 \<and> cellAt g 1 (px p) = Some 1) \<or> (py p = maxY \<and> cellAt g (maxY - 1) (px p) = Some 1)))"
  unfolding exitsTopBottom_def by (auto simp: pos_eq split: if_splits)

lemma set_exitsLeftRight:
  "(p \<in> set (exitsLeftRight g maxX maxY)) =
     (1 \<le> py p \<and> py p \<le> maxY - 1
      \<and> ((px p = 0 \<and> cellAt g (py p) 1 = Some 1) \<or> (px p = maxX \<and> cellAt g (py p) (maxX - 1) = Some 1)))"
  unfolding exitsLeftRight_def by (auto simp: pos_eq split: if_splits)

lemma exitCandidate_props:
  assumes r: "rect g h w" and h3: "3 \<le> h" and w3: "3 \<le> w" and p: "p \<in> set (exitCandidates g)"
  shows "onBorder h w p" and "interior h w (inwardCell h w p)" and "adjacent p (inwardCell h w p)"
    and "cellAt g (py (inwardCell h w p)) (px (inwardCell h w p)) = Some 1"
    and "\<forall>q. interior h w q \<and> adjacent p q \<longrightarrow> q = inwardCell h w p"
proof -
  have lg: "length g = h" "length (g ! 0) = w" using r h3 by (auto simp: rect_def)
  from p have c: "(1 \<le> px p \<and> px p \<le> int w - 2
      \<and> ((py p = 0 \<and> cellAt g 1 (px p) = Some 1) \<or> (py p = int h - 1 \<and> cellAt g (int h - 2) (px p) = Some 1)))
    \<or> (1 \<le> py p \<and> py p \<le> int h - 2
      \<and> ((px p = 0 \<and> cellAt g (py p) 1 = Some 1) \<or> (px p = int w - 1 \<and> cellAt g (py p) (int w - 2) = Some 1)))"
    unfolding exitCandidates_def Let_def lg
    by (auto simp: set_exitsTopBottom set_exitsLeftRight)
  show "onBorder h w p" using c h3 w3 by (auto simp: onBorder_def)
  show "interior h w (inwardCell h w p)" using c h3 w3 by (auto simp: inwardCell_def interior_def)
  show "adjacent p (inwardCell h w p)" using c h3 w3 by (auto simp: inwardCell_def adjacent_cases)
  show "cellAt g (py (inwardCell h w p)) (px (inwardCell h w p)) = Some 1"
    using c h3 w3 by (auto simp: inwardCell_def)
  show "\<forall>q. interior h w q \<and> adjacent p q \<longrightarrow> q = inwardCell h w p"
  proof (intro allI impI)
    fix q assume "interior h w q \<and> adjacent p q"
    then have "px q = px (inwardCell h w p) \<and> py q = py (inwardCell h w p)"
      using c h3 w3 by (auto simp: inwardCell_def interior_def adjacent_cases)
    then show "q = inwardCell h w p" by (intro pos_eqI) simp_all
  qed
qed

lemma first_candidate:
  assumes r: "rect g h w" and h3: "3 \<le> h" and w3: "3 \<le> w" and c: "cellAt g 1 1 = Some 1"
  shows "\<lparr>px = 1, py = 0\<rparr> \<in> set (exitCandidates g)"
proof -
  have lg: "length g = h" "length (g ! 0) = w" using r h3 by (auto simp: rect_def)
  show ?thesis
    unfolding exitCandidates_def Let_def lg using c w3
    by (simp add: set_exitsTopBottom)
qed

lemma findExit_member:
  assumes "exitCandidates g \<noteq> []"
  shows "fst (findExit g r) \<in> set (exitCandidates g)"
proof -
  have "fst r (snd r) mod length (exitCandidates g) < length (exitCandidates g)"
    using assms by simp
  then show ?thesis
    using assms by (simp add: findExit_def Let_def randomBelow_def)
qed

lemma walkSet_update2:
  assumes "\<forall>a b. cellAt g1 a b = (if a = cy \<and> b = cx then Some 2 else cellAt g a b)"
  shows "walkSet g1 = insert \<lparr>px = cx, py = cy\<rparr> (walkSet g)"
  using assms by (auto simp: walkSet_def walkableCell_def isWalkable_def pos_eq)

lemma generateMaze_generic:
  assumes sz: "1 \<le> sz" and h: "h = nat (sz * 2 + 1)"
    and st: "carveStep Q h h" and q0: "Q {\<lparr>px = 1, py = 1\<rparr>}"
  shows "\<exists>g1 r1 g2 ex.
           carveMaze (carveFuel (emptyGrid sz)) (emptyGrid sz) 1 1 r = Some (Inr (g1, r1))
         \<and> rect g1 h h \<and> bin g1 \<and> Q (walkSet g1) \<and> cellAt g1 1 1 = Some 1
         \<and> ex = fst (findExit g1 r1) \<and> ex \<in> set (exitCandidates g1)
         \<and> rect g2 h h
         \<and> (\<forall>a b. cellAt g2 a b = (if a = py ex \<and> b = px ex then Some 2 else cellAt g1 a b))
         \<and> generateMaze sz r = Some (Inr \<lparr>mgrid = g2, mwidth = sz * 2 + 1, mheight = sz * 2 + 1,
                                           mstart = computeFarthestPosition g2 ex, mexit = ex\<rparr>)"
proof -
  from carve_from_start[OF sz h st q0, of r] obtain g1 r1 where
    g1: "carveMaze (carveFuel (emptyGrid sz)) (emptyGrid sz) 1 1 r = Some (Inr (g1, r1))"
      "rect g1 h h" "bin g1" "\<lparr>px = 1, py = 1\<rparr> \<in> walkSet g1" "Q (walkSet g1)"
    by blast
  have h3: "3 \<le> h" using sz h by simp
  from g1(4) have "cellAt g1 1 1 = Some 1 \<or> cellAt g1 1 1 = Some 2"
    by (simp add: walkSet_def walkableCell_def isWalkable_def)
  moreover have "cellAt g1 1 1 \<noteq> Some 2"
    using g1(3)[unfolded bin_def, rule_format, of 1 1 2] by auto
  ultimately have c11: "cellAt g1 1 1 = Some 1" by simp
  have cand: "\<lparr>px = 1, py = 0\<rparr> \<in> set (exitCandidates g1)"
    by (rule first_candidate[OF g1(2) h3 h3 c11])
  then have ne: "exitCandidates g1 \<noteq> []" by auto
  obtain ex r2 where fe: "findExit g1 r1 = (ex, r2)" by (cases "findExit g1 r1")
  have exm: "ex \<in> set (exitCandidates g1)" using findExit_member[OF ne, of r1] fe by simp
  have ob: "onBorder h h ex" by (rule exitCandidate_props(1)[OF g1(2) h3 h3 exm])
  then have range: "0 \<le> py ex" "py ex < int h" "0 \<le> px ex" "px ex < int h"
    by (auto simp: onBorder_def)
  from setCell_rect[OF g1(2) range, of 2] obtain g2 where
    g2: "setCell g1 (py ex) (px ex) 2 = Inr g2" "rect g2 h h"
      "\<forall>a b. cellAt g2 a b = (if a = py ex \<and> b = px ex then Some 2 else cellAt g1 a b)"
    by blast
  have gm: "generateMaze sz r = Some (Inr \<lparr>mgrid = g2, mwidth = sz * 2 + 1, mheight = sz * 2 + 1,
                                           mstart = computeFarthestPosition g2 ex, mexit = ex\<rparr>)"
    using g1(1) fe g2(1) unfolding generateMaze_def emptyGrid_def by (simp add: Let_def)
  from g1 c11 fe exm g2 gm show ?thesis by auto
qed

lemma carveStep_True: "carveStep (\<lambda>V. True) h w"
  by (simp add: carveStep_def)

text \<open>
  Claim C10. For every size of at least 1 and every oracle, \<open>carveMaze\<close> returns a grid whose
  cell (1,1) is a path, so \<open>(1,0)\<close> is among the exit candidates: the candidate list is not
  empty and \<open>findExit\<close> does not take its fallback. The exit of the generated maze is the
  candidate \<open>findExit\<close> picks: a border cell whose neighbour one cell inside is a carved
  path cell.
\<close>

theorem findExit_no_fallback:
  assumes "1 \<le> sz"
  shows "\<exists>g1 r1 m.
           carveMaze (carveFuel (emptyGrid sz)) (emptyGrid sz) 1 1 r = Some (Inr (g1, r1))
         \<and> cellAt g1 1 1 = Some 1
         \<and> \<lparr>px = 1, py = 0\<rparr> \<in> set (exitCandidates g1)
         \<and> length (exitCandidates g1) \<noteq> 0
         \<and> generateMaze sz r = Some (Inr m)
         \<and> mexit m = fst (findExit g1 r1)
         \<and> mexit m \<in> set (exitCandidates g1)
         \<and> onBorder (nat (sz * 2 + 1)) (nat (sz * 2 + 1)) (mexit m)
         \<and> interior (nat (sz * 2 + 1)) (nat (sz * 2 + 1))
              (inwardCell (nat (sz * 2 + 1)) (nat (sz * 2 + 1)) (mexit m))
         \<and> adjacent (mexit m) (inwardCell (nat (sz * 2 + 1)) (nat (sz * 2 + 1)) (mexit m))
         \<and> cellAt g1 (py (inwardCell (nat (sz * 2 + 1)) (nat (sz * 2 + 1)) (mexit m)))
                     (px (inwardCell (nat (sz * 2 + 1)) (nat (sz * 2 + 1)) (mexit m))) = Some 1
         \<and> cellAt (mgrid m) (py (inwardCell (nat (sz * 2 + 1)) (nat (sz * 2 + 1)) (mexit m)))
                     (px (inwardCell (nat (sz * 2 + 1)) (nat (sz * 2 + 1)) (mexit m))) = Some 1"
proof -
  let ?h = "nat (sz * 2 + 1)"
  have h3: "3 \<le> ?h" using assms by simp
  from generateMaze_generic[OF assms refl carveStep_True, of r] obtain g1 r1 g2 ex where
    g: "carveMaze (carveFuel (emptyGrid sz)) (emptyGrid sz) 1 1 r = Some (Inr (g1, r1))"
       "rect g1 ?h ?h" "cellAt g1 1 1 = Some 1"
       "ex = fst (findExit g1 r1)" "ex \<in> set (exitCandidates g1)"
       "\<forall>a b. cellAt g2 a b = (if a = py ex \<and> b = px ex then Some 2 else cellAt g1 a b)"
       "generateMaze sz r = Some (Inr \<lparr>mgrid = g2, mwidth = sz * 2 + 1, mheight = sz * 2 + 1,
                                           mstart = computeFarthestPosition g2 ex, mexit = ex\<rparr>)"
    by auto
  let ?m = "\<lparr>mgrid = g2, mwidth = sz * 2 + 1, mheight = sz * 2 + 1,
             mstart = computeFarthestPosition g2 ex, mexit = ex\<rparr>"
  let ?i = "inwardCell ?h ?h ex"
  note p = exitCandidate_props[OF g(2) h3 h3 g(5)]
  have cand: "\<lparr>px = 1, py = 0\<rparr> \<in> set (exitCandidates g1)"
    by (rule first_candidate[OF g(2) h3 h3 g(3)])
  then have ne: "length (exitCandidates g1) \<noteq> 0" by auto
  have "?i \<noteq> ex" using p(3) adjacent_irrefl by metis
  then have "\<not> (py ?i = py ex \<and> px ?i = px ex)" by (metis pos_eqI)
  then have c2: "cellAt g2 (py ?i) (px ?i) = Some 1" using g(6) p(4) by simp
  have "carveMaze (carveFuel (emptyGrid sz)) (emptyGrid sz) 1 1 r = Some (Inr (g1, r1))
         \<and> cellAt g1 1 1 = Some 1
         \<and> \<lparr>px = 1, py = 0\<rparr> \<in> set (exitCandidates g1)
         \<and> length (exitCandidates g1) \<noteq> 0
         \<and> generateMaze sz r = Some (Inr ?m)
         \<and> mexit ?m = fst (findExit g1 r1)
         \<and> mexit ?m \<in> set (exitCandidates g1)
         \<and> onBorder ?h ?h (mexit ?m)
         \<and> interior ?h ?h (inwardCell ?h ?h (mexit ?m))
         \<and> adjacent (mexit ?m) (inwardCell ?h ?h (mexit ?m))
         \<and> cellAt g1 (py (inwardCell ?h ?h (mexit ?m))) (px (inwardCell ?h ?h (mexit ?m))) = Some 1
         \<and> cellAt (mgrid ?m) (py (inwardCell ?h ?h (mexit ?m))) (px (inwardCell ?h ?h (mexit ?m))) = Some 1"
    using g(1,3,4,5,7) cand ne p(1,2,3,4) c2 by simp
  then show ?thesis by blast
qed

text \<open>The exit theorem for size 1 and the oracle that always draws 0.\<close>
theorem findExit_no_fallback_witness:
  "\<exists>g1 r1 m.
           carveMaze (carveFuel (emptyGrid 1)) (emptyGrid 1) 1 1 (\<lambda>_. 0, 0) = Some (Inr (g1, r1))
         \<and> cellAt g1 1 1 = Some 1
         \<and> \<lparr>px = 1, py = 0\<rparr> \<in> set (exitCandidates g1)
         \<and> length (exitCandidates g1) \<noteq> 0
         \<and> generateMaze 1 (\<lambda>_. 0, 0) = Some (Inr m)
         \<and> mexit m = fst (findExit g1 r1)
         \<and> mexit m \<in> set (exitCandidates g1)
         \<and> onBorder (nat (1 * 2 + 1)) (nat (1 * 2 + 1)) (mexit m)
         \<and> interior (nat (1 * 2 + 1)) (nat (1 * 2 + 1))
              (inwardCell (nat (1 * 2 + 1)) (nat (1 * 2 + 1)) (mexit m))
         \<and> adjacent (mexit m) (inwardCell (nat (1 * 2 + 1)) (nat (1 * 2 + 1)) (mexit m))
         \<and> cellAt g1 (py (inwardCell (nat (1 * 2 + 1)) (nat (1 * 2 + 1)) (mexit m)))
                     (px (inwardCell (nat (1 * 2 + 1)) (nat (1 * 2 + 1)) (mexit m))) = Some 1
         \<and> cellAt (mgrid m) (py (inwardCell (nat (1 * 2 + 1)) (nat (1 * 2 + 1)) (mexit m)))
                     (px (inwardCell (nat (1 * 2 + 1)) (nat (1 * 2 + 1)) (mexit m))) = Some 1"
proof -
  have "(1::int) \<le> 1" by simp
  from findExit_no_fallback[OF this, of "(\<lambda>_. 0, 0)"] show ?thesis .
qed

lemma generateMaze_size1:
  "generateMaze 1 (\<lambda>_. 0, 0)
     = Some (Inr \<lparr>mgrid = [[0, 2, 0], [0, 1, 0], [0, 0, 0]], mwidth = 3, mheight = 3,
                  mstart = \<lparr>px = 1, py = 1\<rparr>, mexit = \<lparr>px = 1, py = 0\<rparr>\<rparr>)"
  by code_simp

lemma border_not_interior: "onBorder h w p \<Longrightarrow> \<not> interior h w p"
  by (auto simp: onBorder_def interior_def)


section \<open>Properties of the game engine lifecycle\<close>
lemma setCell_read: "setCell g cy cx v = Inr g' \<Longrightarrow> cellAt g' cy cx = Some v"
  by (auto simp: setCell_def cellAt_def split: if_splits)

lemma neighbors_walkable: "q \<in> set (neighbors g p) \<Longrightarrow> walkableCell g q"
  by (auto simp: neighbors_def deltas_def walkableCell_def isWalkable_def isPath_def
      Let_def split: if_splits)

lemma bfsLoop_walkable:
  "\<forall>q\<in>set queue. walkableCell g (fst q) \<Longrightarrow> walkableCell g (fst farthest)
     \<Longrightarrow> walkableCell g (bfsLoop g visited queue farthest)"
proof (induction g visited queue farthest rule: bfsLoop.induct)
  case (1 g visited farthest)
  then show ?case by (simp add: bfsLoop.simps)
next
  case (2 g visited nxt queue farthest)
  show ?case
  proof (cases "fst nxt \<in> visited")
    case True
    with 2 show ?thesis by (simp add: bfsLoop.simps)
  next
    case False
    have "\<forall>q\<in>set (queue @ map (\<lambda>neighbor. (neighbor, snd nxt + 1)) (neighbors g (fst nxt))).
            walkableCell g (fst q)"
      using "2.prems"(1) by (auto dest: neighbors_walkable)
    moreover have "walkableCell g (fst (if snd nxt > snd farthest then nxt else farthest))"
      using "2.prems" by simp
    ultimately show ?thesis using "2.IH"(2)[OF False] False by (simp add: bfsLoop.simps)
  qed
qed

lemma generateMaze_start_walkable:
  assumes "generateMaze sz r = Some (Inr m)"
  shows "walkableCell (mgrid m) (mstart m)"
proof -
  from assms obtain g1 r1 ex r2 g2 where
    fe: "findExit g1 r1 = (ex, r2)" and sc: "setCell g1 (py ex) (px ex) 2 = Inr g2"
    and m: "m = \<lparr>mgrid = g2, mwidth = sz * 2 + 1, mheight = sz * 2 + 1,
                 mstart = computeFarthestPosition g2 ex, mexit = ex\<rparr>"
    by (auto simp: generateMaze_def Let_def split: option.splits sum.splits prod.splits)
  have "walkableCell g2 ex"
    using setCell_read[OF sc] by (simp add: walkableCell_def isWalkable_def)
  then have "walkableCell g2 (computeFarthestPosition g2 ex)"
    unfolding computeFarthestPosition_def by (intro bfsLoop_walkable) simp_all
  with m show ?thesis by simp
qed

lemma foldl_players:
  "(foldl (\<lambda>acc player. acc(iclientId player \<mapsto>
              \<lparr>pclientId = iclientId player, pname = iname player, position = st,
               targetPosition = None, movementEndsAt = None\<rparr>)) acc0 infos) cid = Some p
   \<Longrightarrow> acc0 cid = Some p \<or> position p = st"
proof (induction infos arbitrary: acc0)
  case Nil
  then show ?case by simp
next
  case (Cons a infos)
  let ?acc1 = "acc0(iclientId a \<mapsto>
              \<lparr>pclientId = iclientId a, pname = iname a, position = st,
               targetPosition = None, movementEndsAt = None\<rparr>)"
  from Cons.prems have "?acc1 cid = Some p \<or> position p = st"
    by (intro Cons.IH) simp
  then show ?case by (cases "cid = iclientId a") auto
qed

lemma foldl_players_dom:
  "player \<in> set infos \<Longrightarrow>
   \<exists>p. (foldl (\<lambda>acc player. acc(iclientId player \<mapsto>
              \<lparr>pclientId = iclientId player, pname = iname player, position = st,
               targetPosition = None, movementEndsAt = None\<rparr>)) acc0 infos) (iclientId player) = Some p
        \<and> position p = st"
proof (induction infos arbitrary: acc0 rule: rev_induct)
  case Nil
  then show ?case by simp
next
  case (snoc x xs)
  then show ?case by (cases "iclientId x = iclientId player") auto
qed

lemma createGame_result:
  assumes "createGame s r now code sz infos = Some (Inr game, s')"
  shows "s' = s(code \<mapsto> game)" and "walkableCell (mgrid (maze game)) (mstart (maze game))"
    and "\<forall>cid p. players game cid = Some p \<longrightarrow> position p = mstart (maze game)"
    and "\<forall>player\<in>set infos. \<exists>p. players game (iclientId player) = Some p
            \<and> position p = mstart (maze game)"
    and "phase game = WAITING"
proof -
  from assms obtain mz where gm: "generateMaze sz r = Some (Inr mz)"
    and g: "game = \<lparr>lobbyCode = code, maze = mz, phase = WAITING,
                    players = foldl (\<lambda>acc player. acc(iclientId player \<mapsto>
                                \<lparr>pclientId = iclientId player, pname = iname player,
                                 position = mstart mz, targetPosition = None,
                                 movementEndsAt = None\<rparr>)) Map.empty infos,
                    startedAt = None, winnerId = None,
                    allowReconnectUntil = Some (now + RECONNECT_WINDOW_MS)\<rparr>"
    and s': "s' = s(code \<mapsto> game)"
    by (auto simp: createGame_def Let_def split: option.splits sum.splits)
  show "s' = s(code \<mapsto> game)" by (rule s')
  show "walkableCell (mgrid (maze game)) (mstart (maze game))"
    using generateMaze_start_walkable[OF gm] g by simp
  show "\<forall>cid p. players game cid = Some p \<longrightarrow> position p = mstart (maze game)"
    using foldl_players[of "mstart mz" Map.empty infos] g by auto
  show "\<forall>player\<in>set infos. \<exists>p. players game (iclientId player) = Some p
            \<and> position p = mstart (maze game)"
    using foldl_players_dom[of _ infos "mstart mz" Map.empty] g by simp
  show "phase game = WAITING" using g by simp
qed

lemma createGame_error:
  "createGame s r now code sz infos = Some (Inl e, s') \<Longrightarrow> s' = s"
  by (auto simp: createGame_def Let_def split: option.splits sum.splits)

lemma gamesInv_upd: "gamesInv s \<Longrightarrow> gameInv game \<Longrightarrow> gamesInv (s(code \<mapsto> game))"
  by (simp add: gamesInv_def)

lemma gamesInv_get: "gamesInv s \<Longrightarrow> s code = Some game \<Longrightarrow> gameInv game"
  by (simp add: gamesInv_def)

lemma gameInv_cong:
  "gameInv game \<Longrightarrow> players game' = players game \<Longrightarrow> maze game' = maze game \<Longrightarrow> gameInv game'"
  by (simp add: gameInv_def)

lemma inv_createGame:
  assumes "gamesInv s" "createGame s r now code sz infos = Some (res, s')"
  shows "gamesInv s'"
proof (cases res)
  case (Inl e)
  with assms show ?thesis using createGame_error by blast
next
  case (Inr game)
  note c = createGame_result[OF assms(2)[unfolded Inr]]
  have "gameInv game" unfolding gameInv_def using c(2,3) by auto
  with assms(1) c(1) show ?thesis by (simp add: gamesInv_upd)
qed

lemma inv_startCountdown: "gamesInv s \<Longrightarrow> gamesInv (snd (startCountdown s now code secs))"
proof (cases "s code")
  case None
  assume "gamesInv s" with None show ?thesis by (simp add: startCountdown_def)
next
  case (Some game)
  assume inv: "gamesInv s"
  have "gameInv (game\<lparr>phase := COUNTDOWN, startedAt := Some (now + secs * 1000)\<rparr>)"
    by (rule gameInv_cong[OF gamesInv_get[OF inv Some]]) simp_all
  with inv Some show ?thesis by (simp add: startCountdown_def Let_def gamesInv_upd)
qed

lemma inv_beginGame: "gamesInv s \<Longrightarrow> gamesInv (snd (beginGame s now now2 code))"
proof (cases "s code")
  case None
  assume "gamesInv s" with None show ?thesis by (simp add: beginGame_def)
next
  case (Some game)
  assume inv: "gamesInv s"
  have "gameInv (game\<lparr>phase := PLAYING, startedAt := Some now,
                      allowReconnectUntil := Some (now2 + RECONNECT_WINDOW_MS)\<rparr>)"
    by (rule gameInv_cong[OF gamesInv_get[OF inv Some]]) simp_all
  with inv Some show ?thesis by (simp add: beginGame_def Let_def gamesInv_upd)
qed

lemma inv_disconnected: "gamesInv s \<Longrightarrow> gamesInv (snd (markPlayerDisconnected s now code cid))"
proof (cases "s code")
  case None
  assume "gamesInv s" with None show ?thesis by (simp add: markPlayerDisconnected_def)
next
  case (Some game)
  assume inv: "gamesInv s"
  have "gameInv (game\<lparr>allowReconnectUntil := Some (now + RECONNECT_WINDOW_MS)\<rparr>)"
    by (rule gameInv_cong[OF gamesInv_get[OF inv Some]]) simp_all
  with inv Some show ?thesis
    by (cases "players game cid") (simp_all add: markPlayerDisconnected_def Let_def gamesInv_upd)
qed

lemma inv_reconnected: "gamesInv s \<Longrightarrow> gamesInv (snd (markPlayerReconnected s now code cid))"
proof (cases "s code")
  case None
  assume "gamesInv s" with None show ?thesis by (simp add: markPlayerReconnected_def)
next
  case (Some game)
  assume inv: "gamesInv s"
  have "gameInv (game\<lparr>allowReconnectUntil := Some (now + RECONNECT_WINDOW_MS)\<rparr>)"
    by (rule gameInv_cong[OF gamesInv_get[OF inv Some]]) simp_all
  with inv Some show ?thesis
    by (cases "players game cid") (simp_all add: markPlayerReconnected_def Let_def gamesInv_upd)
qed

lemma inv_removeGame: "gamesInv s \<Longrightarrow> gamesInv (removeGame s code)"
  by (simp add: gamesInv_def removeGame_def)

lemma inv_expire: "gamesInv s \<Longrightarrow> gamesInv (expireOldGames s now)"
  by (auto simp: gamesInv_def expireOldGames_def split: option.splits if_splits)

lemma moveToNextJunction_walkable:
  assumes "moveToNextJunction g start d = Inr (pos, steps)"
  shows "walkableCell g pos" and "canEnter g pos"
proof -
  obtain dx dy where d: "directionVectors d = (dx, dy)" by (cases "directionVectors d")
  obtain p n where run: "moveLoop g dx dy start 0 = (p, n)" by (cases "moveLoop g dx dy start 0")
  from assms d run have n: "n \<noteq> 0" "pos = p" "steps = n"
    by (auto simp: moveToNextJunction_def split: if_splits)
  from moveLoop_glide[OF d run] n have "canEnter g (stepN start dx dy n)" "p = stepN start dx dy n"
    by auto
  with n show "canEnter g pos" by simp
  then show "walkableCell g pos" by (simp add: canEnter_def walkableCell_def)
qed

lemma inv_handleMove: "gamesInv s \<Longrightarrow> gamesInv (snd (handleMove s speed now code cid move))"
proof (cases "fst (handleMove s speed now code cid move)")
  case (Inl e)
  assume "gamesInv s"
  with Inl show ?thesis
    by (auto simp: handleMove_def Let_def split: option.splits if_splits sum.splits)
next
  case (Inr res)
  assume inv: "gamesInv s"
  from Inr obtain game player d pos steps where
    g: "s code = Some game" and pl: "players game cid = Some player"
    and od: "ownDirection (toUpperCase (direction move)) = Some d"
    and mv: "moveToNextJunction (mgrid (maze game)) (position player) d = Inr (pos, steps)"
    by (auto simp: handleMove_def Let_def split: option.splits if_splits sum.splits)
  have gi: "gameInv game" by (rule gamesInv_get[OF inv g])
  have wp: "walkableCell (mgrid (maze game)) pos" by (rule moveToNextJunction_walkable(1)[OF mv])
  let ?player' = "player\<lparr>position := pos, targetPosition := Some pos,
                          movementEndsAt := Some (now + int steps * speed)\<rparr>"
  let ?game1 = "game\<lparr>players := (players game)(cid \<mapsto> ?player')\<rparr>"
  have g1: "gameInv ?game1" using gi wp by (auto simp: gameInv_def)
  then have g2: "gameInv (?game1\<lparr>phase := FINISHED, winnerId := Some cid\<rparr>)"
    by (rule gameInv_cong) simp_all
  have "snd (handleMove s speed now code cid move) = s(code \<mapsto> ?game1)
      \<or> snd (handleMove s speed now code cid move) = s(code \<mapsto> ?game1\<lparr>phase := FINISHED, winnerId := Some cid\<rparr>)"
    using Inr g pl od mv
    by (auto simp: handleMove_def Let_def split: option.splits if_splits sum.splits)
  with inv g1 g2 show ?thesis by (auto simp: gamesInv_upd)
qed

lemma reachable_gamesInv: "reachableGames s \<Longrightarrow> gamesInv s"
proof (induction rule: reachableGames.induct)
  case g_init
  show ?case by (simp add: gamesInv_def)
next
  case (g_create s r now code sz infos res s')
  then show ?case using inv_createGame by blast
next
  case (g_restart s r now code sz infos res s')
  then show ?case unfolding restartGame_def using inv_createGame inv_removeGame by blast
qed (simp_all add: inv_startCountdown inv_beginGame inv_handleMove inv_disconnected
      inv_reconnected inv_removeGame inv_expire)

lemma handleMove_result_walkable:
  assumes "s code = Some game" "handleMove s speed now code cid move = (Inr res, s')"
  shows "walkableCell (mgrid (maze game)) (rposition res)"
proof -
  from assms show ?thesis
    by (auto simp: handleMove_def Let_def split: option.splits if_splits sum.splits
        dest: moveToNextJunction_walkable(1))
qed

text \<open>
  Claim C9. In every store the game engine can reach from the empty one (by \<open>createGame\<close>,
  \<open>startCountdown\<close>, \<open>beginGame\<close>, \<open>handleMove\<close>, \<open>markPlayerDisconnected\<close>,
  \<open>markPlayerReconnected\<close>, and also \<open>removeGame\<close>, \<open>restartGame\<close>, \<open>expireOldGames\<close>), the
  position of every player of every game is a walkable cell of that game's grid. A game
  that \<open>createGame\<close> returns has every player at the maze start, which is walkable, and a
  successful \<open>handleMove\<close> returns a walkable cell of the grid.
\<close>

theorem positions_walkable:
  "(reachableGames s \<and> s code = Some game \<and> players game cid = Some p
      \<longrightarrow> walkableCell (mgrid (maze game)) (position p))
   \<and> (createGame s r now code sz infos = Some (Inr game', s')
      \<longrightarrow> walkableCell (mgrid (maze game')) (mstart (maze game'))
          \<and> (\<forall>c q. players game' c = Some q \<longrightarrow> position q = mstart (maze game'))
          \<and> (\<forall>player\<in>set infos. \<exists>q. players game' (iclientId player) = Some q
                 \<and> position q = mstart (maze game')))
   \<and> (s code = Some game \<and> handleMove s speed now2 code cid move = (Inr res, s2)
      \<longrightarrow> walkableCell (mgrid (maze game)) (rposition res))"
proof (intro conjI impI)
  assume a: "reachableGames s \<and> s code = Some game \<and> players game cid = Some p"
  then have "gameInv game" using reachable_gamesInv gamesInv_get by blast
  with a show "walkableCell (mgrid (maze game)) (position p)" unfolding gameInv_def by blast
next
  assume c: "createGame s r now code sz infos = Some (Inr game', s')"
  show "walkableCell (mgrid (maze game')) (mstart (maze game'))"
    by (rule createGame_result(2)[OF c])
  show "\<forall>c q. players game' c = Some q \<longrightarrow> position q = mstart (maze game')"
    by (rule createGame_result(3)[OF c])
  show "\<forall>player\<in>set infos. \<exists>q. players game' (iclientId player) = Some q
                 \<and> position q = mstart (maze game')"
    by (rule createGame_result(4)[OF c])
next
  assume "s code = Some game \<and> handleMove s speed now2 code cid move = (Inr res, s2)"
  then show "walkableCell (mgrid (maze game)) (rposition res)"
    using handleMove_result_walkable by blast
qed

lemma demoCreate_eq:
  "createGame Map.empty (\<lambda>_. 0, 0) 0 ''1234'' 1 demoInfos
     = Some (Inr \<lparr>lobbyCode = ''1234'',
                  maze = \<lparr>mgrid = [[0, 2, 0], [0, 1, 0], [0, 0, 0]], mwidth = 3, mheight = 3,
                           mstart = \<lparr>px = 1, py = 1\<rparr>, mexit = \<lparr>px = 1, py = 0\<rparr>\<rparr>,
                  phase = WAITING,
                  players = [''alice'' \<mapsto> \<lparr>pclientId = ''alice'', pname = ''Alice'',
                                            position = \<lparr>px = 1, py = 1\<rparr>, targetPosition = None,
                                            movementEndsAt = None\<rparr>,
                             ''bob'' \<mapsto> \<lparr>pclientId = ''bob'', pname = ''Bob'',
                                            position = \<lparr>px = 1, py = 1\<rparr>, targetPosition = None,
                                            movementEndsAt = None\<rparr>],
                  startedAt = None, winnerId = None, allowReconnectUntil = Some 30000\<rparr>,
             [''1234'' \<mapsto> \<lparr>lobbyCode = ''1234'',
                  maze = \<lparr>mgrid = [[0, 2, 0], [0, 1, 0], [0, 0, 0]], mwidth = 3, mheight = 3,
                           mstart = \<lparr>px = 1, py = 1\<rparr>, mexit = \<lparr>px = 1, py = 0\<rparr>\<rparr>,
                  phase = WAITING,
                  players = [''alice'' \<mapsto> \<lparr>pclientId = ''alice'', pname = ''Alice'',
                                            position = \<lparr>px = 1, py = 1\<rparr>, targetPosition = None,
                                            movementEndsAt = None\<rparr>,
                             ''bob'' \<mapsto> \<lparr>pclientId = ''bob'', pname = ''Bob'',
                                            position = \<lparr>px = 1, py = 1\<rparr>, targetPosition = None,
                                            movementEndsAt = None\<rparr>],
                  startedAt = None, winnerId = None, allowReconnectUntil = Some 30000\<rparr>])"
  by (simp add: createGame_def generateMaze_size1 demoInfos_def RECONNECT_WINDOW_MS_def Let_def)

text \<open>The position theorem at the store reached by creating a game of size 1.\<close>

theorem positions_walkable_witness:
  "reachableGames demoCreated
   \<and> (\<exists>game p res s2.
         demoCreated ''1234'' = Some game \<and> players game ''alice'' = Some p
       \<and> position p = \<lparr>px = 1, py = 1\<rparr>
       \<and> walkableCell (mgrid (maze game)) (position p)
       \<and> handleMove (snd (beginGame demoCreated 5000 5000 ''1234'')) 50 6000 ''1234'' ''alice''
            \<lparr>direction = ''up''\<rparr> = (Inr res, s2)
       \<and> rposition res = \<lparr>px = 1, py = 0\<rparr>
       \<and> walkableCell (mgrid (maze game)) (rposition res))"
proof -
  let ?mz = "\<lparr>mgrid = [[0, 2, 0], [0, 1, 0], [0, 0, 0]], mwidth = 3, mheight = 3,
                           mstart = \<lparr>px = 1, py = 1\<rparr>, mexit = \<lparr>px = 1, py = 0\<rparr>\<rparr>"
  let ?pa = "\<lparr>pclientId = ''alice'', pname = ''Alice'',
                                            position = \<lparr>px = 1, py = 1\<rparr>, targetPosition = None,
                                            movementEndsAt = None\<rparr>"
  let ?pb = "\<lparr>pclientId = ''bob'', pname = ''Bob'',
                                            position = \<lparr>px = 1, py = 1\<rparr>, targetPosition = None,
                                            movementEndsAt = None\<rparr>"
  let ?game = "\<lparr>lobbyCode = ''1234'', maze = ?mz, phase = WAITING,
                  players = [''alice'' \<mapsto> ?pa, ''bob'' \<mapsto> ?pb],
                  startedAt = None, winnerId = None, allowReconnectUntil = Some 30000\<rparr>"
  have dc: "demoCreated = [''1234'' \<mapsto> ?game]"
    unfolding demoCreated_def demoCreate_eq by simp
  have cr: "createGame Map.empty (\<lambda>_. 0, 0) 0 ''1234'' 1 demoInfos = Some (Inr ?game, demoCreated)"
    unfolding dc by (rule demoCreate_eq)
  have r: "reachableGames demoCreated" by (rule g_create[OF g_init cr])
  have g: "demoCreated ''1234'' = Some ?game" by (simp add: dc)
  have pl: "players ?game ''alice'' = Some ?pa" by simp
  let ?began = "snd (beginGame demoCreated 5000 5000 ''1234'')"
  let ?game2 = "?game\<lparr>phase := PLAYING, startedAt := Some 5000,
                       allowReconnectUntil := Some (5000 + RECONNECT_WINDOW_MS)\<rparr>"
  have bg: "?began ''1234'' = Some ?game2"
    by (simp add: beginGame_def dc Let_def)
  let ?run = "handleMove ?began 50 6000 ''1234'' ''alice'' \<lparr>direction = ''up''\<rparr>"
  have mv: "fst ?run = Inr \<lparr>rposition = \<lparr>px = 1, py = 0\<rparr>, durationMs = 50\<rparr>"
    by (simp add: handleMove_def beginGame_def dc demo_dir_up
      moveToNextJunction_def moveLoop.simps cellAt_def isWalkable_def
      countOpenNeighbors_def openNeighbor_def Let_def)
  then have run: "?run = (Inr \<lparr>rposition = \<lparr>px = 1, py = 0\<rparr>, durationMs = 50\<rparr>, snd ?run)"
    by (cases ?run) simp
  note T = positions_walkable[where s = demoCreated and code = "''1234''" and game = ?game
      and cid = "''alice''" and p = ?pa]
  have w1: "walkableCell (mgrid (maze ?game)) (position ?pa)"
    using T r g pl by blast
  have w2: "walkableCell (mgrid (maze ?game2)) (rposition \<lparr>rposition = \<lparr>px = 1, py = 0\<rparr>, durationMs = 50\<rparr>)"
    using positions_walkable[where s = ?began and code = "''1234''" and game = ?game2
        and cid = "''alice''" and speed = 50 and ?now2.0 = 6000
        and move = "\<lparr>direction = ''up''\<rparr>"
        and res = "\<lparr>rposition = \<lparr>px = 1, py = 0\<rparr>, durationMs = 50\<rparr>" and ?s2.0 = "snd ?run"]
      bg run by blast
  have "demoCreated ''1234'' = Some ?game \<and> players ?game ''alice'' = Some ?pa
       \<and> position ?pa = \<lparr>px = 1, py = 1\<rparr>
       \<and> walkableCell (mgrid (maze ?game)) (position ?pa)
       \<and> ?run = (Inr \<lparr>rposition = \<lparr>px = 1, py = 0\<rparr>, durationMs = 50\<rparr>, snd ?run)
       \<and> rposition \<lparr>rposition = \<lparr>px = 1, py = 0\<rparr>, durationMs = 50\<rparr> = \<lparr>px = 1, py = 0\<rparr>
       \<and> walkableCell (mgrid (maze ?game)) (rposition \<lparr>rposition = \<lparr>px = 1, py = 0\<rparr>, durationMs = 50\<rparr>)"
    using g w1 w2 run by simp
  then have "\<exists>game p res s2.
         demoCreated ''1234'' = Some game \<and> players game ''alice'' = Some p
       \<and> position p = \<lparr>px = 1, py = 1\<rparr>
       \<and> walkableCell (mgrid (maze game)) (position p)
       \<and> ?run = (Inr res, s2)
       \<and> rposition res = \<lparr>px = 1, py = 0\<rparr>
       \<and> walkableCell (mgrid (maze game)) (rposition res)"
    by blast
  with r show ?thesis by (rule conjI)
qed

section \<open>The start selection against the breadth-first search\<close>
lemma distinct_neighbors: "distinct (neighbors g p)"
  by (simp add: neighbors_def deltas_def Let_def)

lemma dedupe_append: "dedupe V (xs @ ys) = dedupe V xs @ dedupe (V \<union> fst ` set xs) ys"
proof (induction xs arbitrary: V)
  case Nil
  then show ?case by simp
next
  case (Cons x xs)
  have "insert (fst x) V \<union> fst ` set xs = V \<union> fst ` set (x # xs)" by auto
  moreover have "fst x \<in> V \<Longrightarrow> V \<union> fst ` set xs = V \<union> fst ` set (x # xs)" by auto
  ultimately show ?case using Cons.IH[of V] Cons.IH[of "insert (fst x) V"] by auto
qed

lemma dedupe_fresh:
  "distinct ns \<Longrightarrow> dedupe S (map (\<lambda>n. (n, d)) ns) = map (\<lambda>n. (n, d)) (filter (\<lambda>n. n \<notin> S) ns)"
proof (induction ns arbitrary: S)
  case Nil
  then show ?case by simp
next
  case (Cons n ns)
  have "filter (\<lambda>m. m \<notin> insert n S) ns = filter (\<lambda>m. m \<notin> S) ns"
    using Cons.prems by (auto intro: filter_cong)
  with Cons show ?case by simp
qed

lemma bfsLoop_refines:
  "bfsLoop g V Q F = fst (firstMax F (specBfs g (V \<union> fst ` set Q) (dedupe V Q)))"
proof (induction g V Q F rule: bfsLoop.induct)
  case (1 g visited farthest)
  show ?case by (simp add: bfsLoop.simps specBfs.simps)
next
  case (2 g visited nxt queue farthest)
  obtain p d where nxt: "nxt = (p, d)" by (cases nxt)
  show ?case
    unfolding nxt
  proof (cases "p \<in> visited")
    case True
    then have "visited \<union> fst ` set ((p, d) # queue) = visited \<union> fst ` set queue"
      by auto
    with True "2.IH"(1) nxt show "bfsLoop g visited ((p, d) # queue) farthest
        = fst (firstMax farthest (specBfs g (visited \<union> fst ` set ((p, d) # queue))
                                   (dedupe visited ((p, d) # queue))))"
      by (simp add: bfsLoop.simps)
  next
    case False
    let ?nb = "map (\<lambda>neighbor. (neighbor, d + 1)) (neighbors g p)"
    let ?S = "visited \<union> fst ` set ((p, d) # queue)"
    let ?new = "filter (\<lambda>n. n \<notin> ?S) (neighbors g p)"
    let ?F' = "if snd farthest < d then (p, d) else farthest"
    have S: "?S = insert p visited \<union> fst ` set queue" by auto
    have IH: "bfsLoop g (insert p visited) (queue @ ?nb) ?F'
        = fst (firstMax ?F' (specBfs g (insert p visited \<union> fst ` set (queue @ ?nb))
                               (dedupe (insert p visited) (queue @ ?nb))))"
      by (rule "2.IH"(2)[unfolded nxt fst_conv snd_conv, OF False])
    have seen: "insert p visited \<union> fst ` set (queue @ ?nb) = ?S \<union> set ?new"
      unfolding S by (auto simp: image_Un image_image)
    have "dedupe (insert p visited \<union> fst ` set queue) ?nb = map (\<lambda>n. (n, d + 1)) ?new"
      unfolding S by (rule dedupe_fresh[OF distinct_neighbors])
    then have dd: "dedupe (insert p visited) (queue @ ?nb)
        = dedupe (insert p visited) queue @ map (\<lambda>n. (n, d + 1)) ?new"
      unfolding dedupe_append by simp
    have lhs: "bfsLoop g visited ((p, d) # queue) farthest = bfsLoop g (insert p visited) (queue @ ?nb) ?F'"
      using False by (simp add: bfsLoop.simps)
    have rhs: "specBfs g ?S (dedupe visited ((p, d) # queue))
        = (p, d) # specBfs g (?S \<union> set ?new) (dedupe (insert p visited) queue @ map (\<lambda>n. (n, d + 1)) ?new)"
      using False by (simp add: specBfs.simps Let_def)
    show "bfsLoop g visited ((p, d) # queue) farthest
        = fst (firstMax farthest (specBfs g ?S (dedupe visited ((p, d) # queue))))"
      unfolding lhs IH rhs seen dd by simp
  qed
qed

lemma computeFarthestPosition_refines:
  "computeFarthestPosition g s = fst (firstMax (s, 0) (bfsDiscovery g s))"
  unfolding computeFarthestPosition_def bfsDiscovery_def
  using bfsLoop_refines[of g "{}" "[(s, 0)]" "(s, 0)"] by simp

lemma firstMax_props:
  "\<exists>i\<le>length xs. firstMax b xs = (b # xs) ! i
     \<and> (\<forall>j\<le>length xs. snd ((b # xs) ! j) \<le> snd ((b # xs) ! i))
     \<and> (\<forall>j<i. snd ((b # xs) ! j) < snd ((b # xs) ! i))"
proof (induction xs arbitrary: b)
  case Nil
  then show ?case by simp
next
  case (Cons x xs)
  show ?case
  proof (cases "snd x > snd b")
    case True
    from Cons.IH[of x] obtain i where i: "i \<le> length xs" "firstMax x xs = (x # xs) ! i"
      "\<forall>j\<le>length xs. snd ((x # xs) ! j) \<le> snd ((x # xs) ! i)"
      "\<forall>j<i. snd ((x # xs) ! j) < snd ((x # xs) ! i)"
      by blast
    have xi: "snd x \<le> snd ((x # xs) ! i)" using i(3)[rule_format, of 0] by simp
    have "firstMax b (x # xs) = (b # x # xs) ! Suc i" using True i(2) by simp
    moreover have "\<forall>j\<le>length (x # xs). snd ((b # x # xs) ! j) \<le> snd ((b # x # xs) ! Suc i)"
    proof (intro allI impI)
      fix j assume "j \<le> length (x # xs)"
      then show "snd ((b # x # xs) ! j) \<le> snd ((b # x # xs) ! Suc i)"
        using i(3) True xi by (cases j) auto
    qed
    moreover have "\<forall>j<Suc i. snd ((b # x # xs) ! j) < snd ((b # x # xs) ! Suc i)"
    proof (intro allI impI)
      fix j assume "j < Suc i"
      then show "snd ((b # x # xs) ! j) < snd ((b # x # xs) ! Suc i)"
        using i(4) True xi by (cases j) auto
    qed
    ultimately show ?thesis using i(1) by (intro exI[of _ "Suc i"]) simp
  next
    case False
    from Cons.IH[of b] obtain i where i: "i \<le> length xs" "firstMax b xs = (b # xs) ! i"
      "\<forall>j\<le>length xs. snd ((b # xs) ! j) \<le> snd ((b # xs) ! i)"
      "\<forall>j<i. snd ((b # xs) ! j) < snd ((b # xs) ! i)"
      by blast
    have bi: "snd b \<le> snd ((b # xs) ! i)" using i(3)[rule_format, of 0] by simp
    show ?thesis
    proof (cases i)
      case 0
      have "firstMax b (x # xs) = (b # x # xs) ! 0" using False i(2) 0 by simp
      moreover have "\<forall>j\<le>length (x # xs). snd ((b # x # xs) ! j) \<le> snd ((b # x # xs) ! 0)"
      proof (intro allI impI)
        fix j assume j: "j \<le> length (x # xs)"
        show "snd ((b # x # xs) ! j) \<le> snd ((b # x # xs) ! 0)"
        proof (cases j)
          case 0
          then show ?thesis by simp
        next
          case (Suc k)
          show ?thesis
          proof (cases k)
            case 0
            with Suc False show ?thesis by simp
          next
            case (Suc k')
            with \<open>j = Suc k\<close> j have "Suc k' \<le> length xs" by simp
            from i(3)[rule_format, OF this] \<open>i = 0\<close> Suc \<open>j = Suc k\<close> show ?thesis by simp
          qed
        qed
      qed
      ultimately show ?thesis by (intro exI[of _ 0]) simp
    next
      case (Suc i')
      have "firstMax b (x # xs) = (b # x # xs) ! Suc i" using False i(2) Suc by simp
      moreover have "\<forall>j\<le>length (x # xs). snd ((b # x # xs) ! j) \<le> snd ((b # x # xs) ! Suc i)"
      proof (intro allI impI)
        fix j assume j: "j \<le> length (x # xs)"
        show "snd ((b # x # xs) ! j) \<le> snd ((b # x # xs) ! Suc i)"
        proof (cases j)
          case 0
          then show ?thesis using bi Suc by simp
        next
          case (Suc k)
          show ?thesis
          proof (cases k)
            case 0
            with Suc False bi \<open>i = Suc i'\<close> show ?thesis by simp
          next
            case (Suc k')
            with \<open>j = Suc k\<close> j have "Suc k' \<le> length xs" by simp
            from i(3)[rule_format, OF this] \<open>i = Suc i'\<close> Suc \<open>j = Suc k\<close> show ?thesis by simp
          qed
        qed
      qed
      moreover have "\<forall>j<Suc i. snd ((b # x # xs) ! j) < snd ((b # x # xs) ! Suc i)"
      proof (intro allI impI)
        fix j assume j: "j < Suc i"
        show "snd ((b # x # xs) ! j) < snd ((b # x # xs) ! Suc i)"
        proof (cases j)
          case 0
          then show ?thesis using i(4)[rule_format, of 0] Suc by simp
        next
          case (Suc k)
          show ?thesis
          proof (cases k)
            case 0
            have "snd b < snd ((b # xs) ! i)" using i(4)[rule_format, of 0] \<open>i = Suc i'\<close> by simp
            with 0 Suc False \<open>i = Suc i'\<close> show ?thesis by simp
          next
            case (Suc k')
            with \<open>j = Suc k\<close> j have "Suc k' < i" by simp
            from i(4)[rule_format, OF this] \<open>i = Suc i'\<close> Suc \<open>j = Suc k\<close> show ?thesis by simp
          qed
        qed
      qed
      ultimately show ?thesis using i(1) by (intro exI[of _ "Suc i"]) simp
    qed
  qed
qed

lemma neighbors_memD:
  assumes "n \<in> set (neighbors g p)"
  shows "\<exists>dx dy. (dx, dy) \<in> set deltas \<and> n = \<lparr>px = px p + dx, py = py p + dy\<rparr> \<and> isPath g n"
proof -
  from assms obtain d where d: "d \<in> set deltas"
    and n: "n \<in> set ((\<lambda>(dx, dy).
        (let nx = px p + dx; ny = py p + dy in
         if ny < 0 \<or> ny \<ge> int (length g) then []
         else if nx < 0 \<or> nx \<ge> int (length (g ! 0)) then []
         else if \<not> isPath g \<lparr>px = nx, py = ny\<rparr> then []
         else [\<lparr>px = nx, py = ny\<rparr>])) d)"
    unfolding neighbors_def set_concat set_map by blast
  obtain dx dy where dd: "d = (dx, dy)" by (cases d)
  from n have "n = \<lparr>px = px p + dx, py = py p + dy\<rparr> \<and> isPath g n"
    unfolding dd by (simp add: Let_def split: if_splits)
  with d dd show ?thesis by blast
qed

lemma neighbors_adjacent: "n \<in> set (neighbors g p) \<Longrightarrow> adjacent p n \<and> n \<in> walkSet g"
proof -
  assume "n \<in> set (neighbors g p)"
  from neighbors_memD[OF this] obtain dx dy where
    d: "(dx, dy) \<in> set deltas" "n = \<lparr>px = px p + dx, py = py p + dy\<rparr>" "isPath g n"
    by blast
  from d(1,2) have "adjacent p n" by (auto simp: deltas_def adjacent_cases)
  moreover from d(3) have "n \<in> walkSet g"
    by (simp add: isPath_def walkSet_def walkableCell_def isWalkable_def)
  ultimately show ?thesis by simp
qed

lemma neighbors_memI:
  assumes "(dx, dy) \<in> set deltas"
    and "0 \<le> py p + dy" "py p + dy < int (length g)"
    and "0 \<le> px p + dx" "px p + dx < int (length (g ! 0))"
    and "isPath g \<lparr>px = px p + dx, py = py p + dy\<rparr>"
  shows "\<lparr>px = px p + dx, py = py p + dy\<rparr> \<in> set (neighbors g p)"
proof -
  let ?f = "\<lambda>(dx, dy).
        (let nx = px p + dx; ny = py p + dy in
         if ny < 0 \<or> ny \<ge> int (length g) then []
         else if nx < 0 \<or> nx \<ge> int (length (g ! 0)) then []
         else if \<not> isPath g \<lparr>px = nx, py = ny\<rparr> then []
         else [\<lparr>px = nx, py = ny\<rparr>])"
  have "\<lparr>px = px p + dx, py = py p + dy\<rparr> \<in> set (?f (dx, dy))"
    using assms(2-6) by (simp add: Let_def)
  moreover have "?f (dx, dy) \<in> set (map ?f deltas)"
    unfolding set_map using assms(1) by (rule imageI)
  ultimately have "\<lparr>px = px p + dx, py = py p + dy\<rparr> \<in> set (concat (map ?f deltas))"
    unfolding set_concat by blast
  then show ?thesis unfolding neighbors_def .
qed

lemma neighbors_complete:
  assumes r: "rect g h w" and a: "adjacent p n" and wn: "n \<in> walkSet g"
  shows "n \<in> set (neighbors g p)"
proof -
  from wn have c: "cellAt g (py n) (px n) = Some 1 \<or> cellAt g (py n) (px n) = Some 2"
    by (simp add: walkSet_def walkableCell_def isWalkable_def)
  then have "cellAt g (py n) (px n) \<noteq> None" by auto
  then have rng: "0 \<le> py n" "py n < int h" "0 \<le> px n" "px n < int w"
    unfolding cellAt_rect[OF r] by (simp_all split: if_splits)
  then have lg: "length g = h" "length (g ! 0) = w" using r by (auto simp: rect_def)
  have ip: "isPath g n" using c by (simp add: isPath_def)
  have nE: "\<lparr>px = px n, py = py n\<rparr> = n" by (cases n) simp
  from a have "(px n = px p + 1 \<and> py n = py p) \<or> (px n = px p - 1 \<and> py n = py p)
      \<or> (px n = px p \<and> py n = py p + 1) \<or> (px n = px p \<and> py n = py p - 1)"
    by (simp only: adjacent_cases)
  then obtain dx dy where d: "(dx, dy) \<in> set deltas" "px n = px p + dx" "py n = py p + dy"
  proof (elim disjE)
    assume "px n = px p + 1 \<and> py n = py p"
    then show ?thesis by (intro that[of 1 0]) (simp_all add: deltas_def)
  next
    assume "px n = px p - 1 \<and> py n = py p"
    then show ?thesis by (intro that[of "-1" 0]) (simp_all add: deltas_def)
  next
    assume "px n = px p \<and> py n = py p + 1"
    then show ?thesis by (intro that[of 0 1]) (simp_all add: deltas_def)
  next
    assume "px n = px p \<and> py n = py p - 1"
    then show ?thesis by (intro that[of 0 "-1"]) (simp_all add: deltas_def)
  qed
  have n': "\<lparr>px = px p + dx, py = py p + dy\<rparr> = n" using d(2,3) nE by simp
  have "\<lparr>px = px p + dx, py = py p + dy\<rparr> \<in> set (neighbors g p)"
  proof (rule neighbors_memI[OF d(1)])
    show "isPath g \<lparr>px = px p + dx, py = py p + dy\<rparr>" unfolding n' by (rule ip)
  qed (use d rng lg in simp_all)
  then show ?thesis unfolding n' .
qed

lemma specBfs_inv:
  "distinct (map fst queue) \<Longrightarrow> fst ` set queue \<subseteq> seen
   \<Longrightarrow> \<forall>x\<in>set queue. \<exists>ps. simplePathIn (walkSet g) s (fst x) ps \<and> length ps = snd x + 1 \<and> set ps \<subseteq> seen
   \<Longrightarrow> distinct (map fst (specBfs g seen queue))
     \<and> fst ` set (specBfs g seen queue) \<inter> seen \<subseteq> fst ` set queue
     \<and> (\<forall>x\<in>set (specBfs g seen queue). \<exists>ps. simplePathIn (walkSet g) s (fst x) ps \<and> length ps = snd x + 1)
     \<and> fst ` set queue \<subseteq> fst ` set (specBfs g seen queue)
     \<and> (\<forall>q\<in>fst ` set (specBfs g seen queue). set (neighbors g q) \<subseteq> seen \<union> fst ` set (specBfs g seen queue))"
proof (induction g seen queue rule: specBfs.induct)
  case (1 g seen)
  show ?case by (simp add: specBfs.simps)
next
  case (2 g seen p d queue)
  let ?new = "filter (\<lambda>n. n \<notin> seen) (neighbors g p)"
  let ?seen' = "seen \<union> set ?new"
  let ?queue' = "queue @ map (\<lambda>n. (n, d + 1)) ?new"
  let ?T' = "specBfs g ?seen' ?queue'"
  have T: "specBfs g seen ((p, d) # queue) = (p, d) # ?T'" by (simp add: specBfs.simps Let_def)
  have pseen: "p \<in> seen" and qseen: "fst ` set queue \<subseteq> seen" using "2.prems"(2) by auto
  have pq: "p \<notin> fst ` set queue" and dq: "distinct (map fst queue)" using "2.prems"(1) by auto
  from "2.prems"(3) obtain pp where pp: "simplePathIn (walkSet g) s p pp" "length pp = d + 1" "set pp \<subseteq> seen"
    by auto
  have fq': "fst ` set ?queue' = fst ` set queue \<union> set ?new" by (auto simp: image_Un image_image)
  have d': "distinct (map fst ?queue')"
    using dq qseen distinct_neighbors[of g p] by (auto simp: comp_def)
  have s': "fst ` set ?queue' \<subseteq> ?seen'" using qseen unfolding fq' by auto
  have p': "\<forall>x\<in>set ?queue'. \<exists>ps. simplePathIn (walkSet g) s (fst x) ps \<and> length ps = snd x + 1 \<and> set ps \<subseteq> ?seen'"
  proof
    fix x assume "x \<in> set ?queue'"
    then consider "x \<in> set queue" | n where "n \<in> set ?new" "x = (n, d + 1)" by auto
    then show "\<exists>ps. simplePathIn (walkSet g) s (fst x) ps \<and> length ps = snd x + 1 \<and> set ps \<subseteq> ?seen'"
    proof cases
      case 1
      with "2.prems"(3) show ?thesis by fastforce
    next
      case 2
      then have nn: "n \<notin> seen" "adjacent p n" "n \<in> walkSet g"
        using neighbors_adjacent[of n g p] by auto
      have ne: "pp \<noteq> []" "hd pp = s" "last pp = p" "distinct pp" "walk (walkSet g) pp"
        using pp(1) by (auto simp: simplePathIn_def)
      have "n \<notin> set pp" using nn(1) pp(3) by auto
      then have "simplePathIn (walkSet g) s n (pp @ [n])"
        using ne nn by (simp add: simplePathIn_def walk_snoc)
      moreover have "length (pp @ [n]) = snd x + 1" using pp(2) 2 by simp
      moreover have "set (pp @ [n]) \<subseteq> ?seen'" using pp(3) 2(1) by auto
      ultimately show ?thesis using 2(2) by (intro exI[of _ "pp @ [n]"]) simp
    qed
  qed
  note IH = "2.IH"[OF refl d' s' p']
  from IH have i1: "distinct (map fst ?T')"
    and i2: "fst ` set ?T' \<inter> ?seen' \<subseteq> fst ` set ?queue'"
    and i3: "\<forall>x\<in>set ?T'. \<exists>ps. simplePathIn (walkSet g) s (fst x) ps \<and> length ps = snd x + 1"
    and i4: "fst ` set ?queue' \<subseteq> fst ` set ?T'"
    and i5: "\<forall>q\<in>fst ` set ?T'. set (neighbors g q) \<subseteq> ?seen' \<union> fst ` set ?T'"
    by blast+
  have pT: "p \<notin> fst ` set ?T'"
  proof
    assume "p \<in> fst ` set ?T'"
    with pseen i2 have "p \<in> fst ` set ?queue'" by blast
    with pq pseen show False unfolding fq' by auto
  qed
  have c1: "distinct (map fst ((p, d) # ?T'))" using i1 pT by simp
  have c2: "fst ` set ((p, d) # ?T') \<inter> seen \<subseteq> fst ` set ((p, d) # queue)"
  proof
    fix q assume q: "q \<in> fst ` set ((p, d) # ?T') \<inter> seen"
    show "q \<in> fst ` set ((p, d) # queue)"
    proof (cases "q = p")
      case True
      then show ?thesis by simp
    next
      case False
      with q have "q \<in> fst ` set ?T' \<inter> ?seen'" by auto
      with i2 have "q \<in> fst ` set queue \<union> set ?new" unfolding fq' by blast
      with q show ?thesis by auto
    qed
  qed
  have c3: "\<forall>x\<in>set ((p, d) # ?T'). \<exists>ps. simplePathIn (walkSet g) s (fst x) ps \<and> length ps = snd x + 1"
    using i3 pp(1,2) by auto
  have c4: "fst ` set ((p, d) # queue) \<subseteq> fst ` set ((p, d) # ?T')"
    using i4 unfolding fq' by auto
  have newT: "set ?new \<subseteq> fst ` set ?T'" using i4 unfolding fq' by auto
  have c5: "\<forall>q\<in>fst ` set ((p, d) # ?T'). set (neighbors g q) \<subseteq> seen \<union> fst ` set ((p, d) # ?T')"
  proof
    fix q assume "q \<in> fst ` set ((p, d) # ?T')"
    then consider "q = p" | "q \<in> fst ` set ?T'" by auto
    then show "set (neighbors g q) \<subseteq> seen \<union> fst ` set ((p, d) # ?T')"
    proof cases
      case 1
      have "set (neighbors g p) \<subseteq> seen \<union> set ?new" by auto
      with newT 1 show ?thesis by auto
    next
      case 2
      with i5 have "set (neighbors g q) \<subseteq> ?seen' \<union> fst ` set ?T'" by blast
      with newT show ?thesis by auto
    qed
  qed
  from c1 c2 c3 c4 c5 show ?case unfolding T by blast
qed

lemma bfsDiscovery_props:
  assumes s: "s \<in> walkSet g"
  shows "distinct (map fst (bfsDiscovery g s))"
    and "\<forall>x\<in>set (bfsDiscovery g s). \<exists>ps. simplePathIn (walkSet g) s (fst x) ps \<and> length ps = snd x + 1"
    and "s \<in> fst ` set (bfsDiscovery g s)"
    and "\<forall>q\<in>fst ` set (bfsDiscovery g s). set (neighbors g q) \<subseteq> fst ` set (bfsDiscovery g s)"
    and "\<exists>rest. bfsDiscovery g s = (s, 0) # rest"
proof -
  have p0: "\<forall>x\<in>set [(s, 0::nat)]. \<exists>ps. simplePathIn (walkSet g) s (fst x) ps \<and> length ps = snd x + 1 \<and> set ps \<subseteq> {s}"
    using s by (auto simp: simplePathIn_def intro!: exI[of _ "[s]"])
  from specBfs_inv[of "[(s, 0)]" "{s}" g s, OF _ _ p0]
  have i: "distinct (map fst (bfsDiscovery g s))"
    "\<forall>x\<in>set (bfsDiscovery g s). \<exists>ps. simplePathIn (walkSet g) s (fst x) ps \<and> length ps = snd x + 1"
    "fst ` set [(s, 0::nat)] \<subseteq> fst ` set (bfsDiscovery g s)"
    "\<forall>q\<in>fst ` set (bfsDiscovery g s). set (neighbors g q) \<subseteq> {s} \<union> fst ` set (bfsDiscovery g s)"
    unfolding bfsDiscovery_def by simp_all
  show "distinct (map fst (bfsDiscovery g s))" by (rule i(1))
  show "\<forall>x\<in>set (bfsDiscovery g s). \<exists>ps. simplePathIn (walkSet g) s (fst x) ps \<and> length ps = snd x + 1"
    by (rule i(2))
  show sT: "s \<in> fst ` set (bfsDiscovery g s)" using i(3) by simp
  show "\<forall>q\<in>fst ` set (bfsDiscovery g s). set (neighbors g q) \<subseteq> fst ` set (bfsDiscovery g s)"
    using i(4) sT by auto
  show "\<exists>rest. bfsDiscovery g s = (s, 0) # rest"
    unfolding bfsDiscovery_def by (simp add: specBfs.simps Let_def)
qed

lemma closed_walk:
  assumes r: "rect g h w"
    and cl: "\<forall>q\<in>C. set (neighbors g q) \<subseteq> C"
  shows "walk (walkSet g) ps \<Longrightarrow> ps \<noteq> [] \<Longrightarrow> hd ps \<in> C \<Longrightarrow> set ps \<subseteq> C"
proof (induction ps)
  case Nil
  then show ?case by simp
next
  case (Cons a ps)
  show ?case
  proof (cases "ps = []")
    case True
    with Cons.prems show ?thesis by simp
  next
    case False
    with Cons.prems have a: "a \<in> C" "adjacent a (hd ps)" "walk (walkSet g) ps"
      by (auto simp: walk_Cons)
    from a(3) False have "hd ps \<in> walkSet g" using walk_subset by fastforce
    from neighbors_complete[OF r a(2) this] cl a(1) have "hd ps \<in> C" by blast
    from Cons.IH[OF a(3) False this] a(1) show ?thesis by simp
  qed
qed

lemma generateMaze_tree:
  assumes "1 \<le> sz"
  shows "\<exists>g1 g2 ex.
      generateMaze sz r = Some (Inr \<lparr>mgrid = g2, mwidth = sz * 2 + 1, mheight = sz * 2 + 1,
                                      mstart = computeFarthestPosition g2 ex, mexit = ex\<rparr>)
    \<and> rect g1 (nat (sz * 2 + 1)) (nat (sz * 2 + 1)) \<and> bin g1
    \<and> (\<forall>q\<in>walkSet g1. interior (nat (sz * 2 + 1)) (nat (sz * 2 + 1)) q)
    \<and> onBorder (nat (sz * 2 + 1)) (nat (sz * 2 + 1)) ex
    \<and> rect g2 (nat (sz * 2 + 1)) (nat (sz * 2 + 1))
    \<and> (\<forall>a b. cellAt g2 a b = (if a = py ex \<and> b = px ex then Some 2 else cellAt g1 a b))
    \<and> walkSet g2 = insert ex (walkSet g1)
    \<and> treeSet (walkSet g2)"
proof -
  let ?h = "nat (sz * 2 + 1)"
  have h3: "3 \<le> ?h" using assms by simp
  have q0: "Good ?h ?h {\<lparr>px = 1, py = 1\<rparr>}"
    using h3 by (intro Good_single) (simp_all add: interior_def)
  from generateMaze_generic[OF assms refl carveStep_Good q0, of r] obtain g1 r1 g2 ex where
    g: "rect g1 ?h ?h" "bin g1" "Good ?h ?h (walkSet g1)"
       "ex \<in> set (exitCandidates g1)" "rect g2 ?h ?h"
       "\<forall>a b. cellAt g2 a b = (if a = py ex \<and> b = px ex then Some 2 else cellAt g1 a b)"
       "generateMaze sz r = Some (Inr \<lparr>mgrid = g2, mwidth = sz * 2 + 1, mheight = sz * 2 + 1,
                                           mstart = computeFarthestPosition g2 ex, mexit = ex\<rparr>)"
    by auto
  let ?u = "inwardCell ?h ?h ex"
  note p = exitCandidate_props[OF g(1) h3 h3 g(4)]
  from g(3) have t1: "treeSet (walkSet g1)"
    and int1: "\<forall>q\<in>walkSet g1. interior ?h ?h q"
    unfolding Good_def by blast+
  have exE: "\<lparr>px = px ex, py = py ex\<rparr> = ex" by (cases ex) simp
  have w2: "walkSet g2 = insert ex (walkSet g1)"
    using walkSet_update2[OF g(6)] exE by simp
  have exV: "ex \<notin> walkSet g1" using int1 border_not_interior[OF p(1)] by blast
  have uV: "?u \<in> walkSet g1"
    using p(4) by (simp add: walkSet_def walkableCell_def isWalkable_def)
  have only: "\<forall>q\<in>walkSet g1. adjacent ex q \<longrightarrow> q = ?u"
    using p(5) int1 by blast
  have t2: "treeSet (walkSet g2)"
    unfolding w2 by (rule treeSet_leaf[OF t1 only exV uV p(3)])
  from g(7) g(1,2) int1 p(1) g(5,6) w2 t2 show ?thesis by blast
qed

text \<open>
  Claim C4. For every size of at least 1 and every oracle, \<open>generateMaze\<close> returns a maze
  whose grid has \<open>2 * size + 1\<close> rows of \<open>2 * size + 1\<close> cells, as \<open>width\<close> and \<open>height\<close> say; any
  two walkable cells (values 1 and 2) are joined by exactly one simple 4-directional path
  through walkable cells; every cell of the outer ring other than the exit is a wall, and
  the exit is a cell of the outer ring with value 2.
\<close>
theorem generateMaze_perfect:
  assumes "1 \<le> sz"
  shows "\<exists>m. generateMaze sz r = Some (Inr m)
     \<and> mwidth m = 2 * sz + 1 \<and> mheight m = 2 * sz + 1
     \<and> length (mgrid m) = nat (2 * sz + 1)
     \<and> (\<forall>i<nat (2 * sz + 1). length (mgrid m ! i) = nat (2 * sz + 1))
     \<and> (\<forall>a b. walkableCell (mgrid m) a \<and> walkableCell (mgrid m) b
            \<longrightarrow> (\<exists>!ps. simplePathIn (walkSet (mgrid m)) a b ps))
     \<and> (\<forall>p. onBorder (nat (2 * sz + 1)) (nat (2 * sz + 1)) p \<and> p \<noteq> mexit m
            \<longrightarrow> cellAt (mgrid m) (py p) (px p) = Some 0)
     \<and> onBorder (nat (2 * sz + 1)) (nat (2 * sz + 1)) (mexit m)
     \<and> cellAt (mgrid m) (py (mexit m)) (px (mexit m)) = Some 2"
proof -
  let ?h = "nat (sz * 2 + 1)"
  have hh: "nat (2 * sz + 1) = ?h" by (simp add: mult.commute)
  from generateMaze_tree[OF assms, of r] obtain g1 g2 ex where
    g: "generateMaze sz r = Some (Inr \<lparr>mgrid = g2, mwidth = sz * 2 + 1, mheight = sz * 2 + 1,
                                      mstart = computeFarthestPosition g2 ex, mexit = ex\<rparr>)"
      "rect g1 ?h ?h" "bin g1" "\<forall>q\<in>walkSet g1. interior ?h ?h q" "onBorder ?h ?h ex"
      "rect g2 ?h ?h"
      "\<forall>a b. cellAt g2 a b = (if a = py ex \<and> b = px ex then Some 2 else cellAt g1 a b)"
      "treeSet (walkSet g2)"
    by blast
  let ?m = "\<lparr>mgrid = g2, mwidth = sz * 2 + 1, mheight = sz * 2 + 1,
             mstart = computeFarthestPosition g2 ex, mexit = ex\<rparr>"
  from g(8) have paths: "\<forall>a b. walkableCell g2 a \<and> walkableCell g2 b
            \<longrightarrow> (\<exists>!ps. simplePathIn (walkSet g2) a b ps)"
    unfolding treeSet_def walkSet_def by blast
  have border: "\<forall>q. onBorder ?h ?h q \<and> q \<noteq> ex \<longrightarrow> cellAt g2 (py q) (px q) = Some 0"
  proof (intro allI impI)
    fix q assume q: "onBorder ?h ?h q \<and> q \<noteq> ex"
    then have ne: "\<not> (py q = py ex \<and> px q = px ex)" by (metis pos_eqI)
    from q have "\<not> interior ?h ?h q" by (simp add: border_not_interior)
    then have nw: "q \<notin> walkSet g1" using g(4) by blast
    from q obtain v where v: "cellAt g1 (py q) (px q) = Some v"
      by (auto simp: cellAt_rect[OF g(2)] onBorder_def)
    with g(3) have "v = 0 \<or> v = 1" by (auto simp: bin_def)
    with nw v have "v = 0" by (auto simp: walkSet_def walkableCell_def isWalkable_def)
    with v ne g(7) show "cellAt g2 (py q) (px q) = Some 0" by simp
  qed
  have exit2: "cellAt g2 (py ex) (px ex) = Some 2" using g(7) by simp
  have shape: "length g2 = ?h" "\<forall>i<?h. length (g2 ! i) = ?h"
    using g(6) by (simp_all add: rect_def)
  have "generateMaze sz r = Some (Inr ?m)
     \<and> mwidth ?m = 2 * sz + 1 \<and> mheight ?m = 2 * sz + 1
     \<and> length (mgrid ?m) = nat (2 * sz + 1)
     \<and> (\<forall>i<nat (2 * sz + 1). length (mgrid ?m ! i) = nat (2 * sz + 1))
     \<and> (\<forall>a b. walkableCell (mgrid ?m) a \<and> walkableCell (mgrid ?m) b
            \<longrightarrow> (\<exists>!ps. simplePathIn (walkSet (mgrid ?m)) a b ps))
     \<and> (\<forall>p. onBorder (nat (2 * sz + 1)) (nat (2 * sz + 1)) p \<and> p \<noteq> mexit ?m
            \<longrightarrow> cellAt (mgrid ?m) (py p) (px p) = Some 0)
     \<and> onBorder (nat (2 * sz + 1)) (nat (2 * sz + 1)) (mexit ?m)
     \<and> cellAt (mgrid ?m) (py (mexit ?m)) (px (mexit ?m)) = Some 2"
    unfolding hh using g(1,5) shape paths border exit2 by simp
  then show ?thesis by (rule exI[of _ ?m])
qed

text \<open>The perfect-maze theorem for size 1 and the oracle that always draws 0.\<close>

theorem generateMaze_perfect_witness:
  "\<exists>m. generateMaze 1 (\<lambda>_. 0, 0) = Some (Inr m)
     \<and> mwidth m = 2 * 1 + 1 \<and> mheight m = 2 * 1 + 1
     \<and> length (mgrid m) = nat (2 * 1 + 1)
     \<and> (\<forall>i<nat (2 * 1 + 1). length (mgrid m ! i) = nat (2 * 1 + 1))
     \<and> (\<forall>a b. walkableCell (mgrid m) a \<and> walkableCell (mgrid m) b
            \<longrightarrow> (\<exists>!ps. simplePathIn (walkSet (mgrid m)) a b ps))
     \<and> (\<forall>p. onBorder (nat (2 * 1 + 1)) (nat (2 * 1 + 1)) p \<and> p \<noteq> mexit m
            \<longrightarrow> cellAt (mgrid m) (py p) (px p) = Some 0)
     \<and> onBorder (nat (2 * 1 + 1)) (nat (2 * 1 + 1)) (mexit m)
     \<and> cellAt (mgrid m) (py (mexit m)) (px (mexit m)) = Some 2"
proof -
  have "(1::int) \<le> 1" by simp
  from generateMaze_perfect[OF this, of "(\<lambda>_. 0, 0)"] show ?thesis .
qed

text \<open>
  Claim C5. For every size of at least 1 and every oracle, let \<open>T\<close> be the breadth-first
  discovery list from the exit of the generated maze (cells with their distance, in FIFO
  discovery order). \<open>T\<close> lists every walkable cell exactly once, and the distance of a cell
  is the number of steps of the simple path from the exit to it. The start of the maze is
  the cell of an entry of \<open>T\<close> whose distance is the greatest in \<open>T\<close>, and every entry before
  it has a smaller distance: the start is the first discovered cell of maximal distance.
  So the start is walkable and no walkable cell has a longer path from the exit.
\<close>

theorem start_is_farthest:
  assumes "1 \<le> sz"
  shows "\<exists>m T. generateMaze sz r = Some (Inr m)
     \<and> T = bfsDiscovery (mgrid m) (mexit m)
     \<and> distinct (map fst T) \<and> fst ` set T = walkSet (mgrid m)
     \<and> (\<forall>x\<in>set T. \<forall>ps. simplePathIn (walkSet (mgrid m)) (mexit m) (fst x) ps
            \<longrightarrow> length ps = snd x + 1)
     \<and> (\<exists>i<length T. fst (T ! i) = mstart m
            \<and> (\<forall>j<length T. snd (T ! j) \<le> snd (T ! i))
            \<and> (\<forall>j<i. snd (T ! j) < snd (T ! i)))
     \<and> walkableCell (mgrid m) (mstart m)
     \<and> (\<forall>q ps ps'. simplePathIn (walkSet (mgrid m)) (mexit m) q ps
                    \<and> simplePathIn (walkSet (mgrid m)) (mexit m) (mstart m) ps'
            \<longrightarrow> length ps \<le> length ps')"
proof -
  let ?h = "nat (sz * 2 + 1)"
  from generateMaze_tree[OF assms, of r] obtain g1 g2 ex where
    g: "generateMaze sz r = Some (Inr \<lparr>mgrid = g2, mwidth = sz * 2 + 1, mheight = sz * 2 + 1,
                                      mstart = computeFarthestPosition g2 ex, mexit = ex\<rparr>)"
      "rect g2 ?h ?h" "walkSet g2 = insert ex (walkSet g1)" "treeSet (walkSet g2)"
    by blast
  let ?m = "\<lparr>mgrid = g2, mwidth = sz * 2 + 1, mheight = sz * 2 + 1,
             mstart = computeFarthestPosition g2 ex, mexit = ex\<rparr>"
  let ?W = "walkSet g2"
  let ?T = "bfsDiscovery g2 ex"
  let ?st = "computeFarthestPosition g2 ex"
  have exW: "ex \<in> ?W" using g(3) by simp
  note b = bfsDiscovery_props[OF exW]
  have sub1: "fst ` set ?T \<subseteq> ?W"
  proof
    fix q assume "q \<in> fst ` set ?T"
    then obtain x where x: "x \<in> set ?T" "q = fst x" by blast
    with b(2) obtain ps where "simplePathIn ?W ex q ps" by blast
    then have "ps \<noteq> []" "last ps = q" "set ps \<subseteq> ?W"
      by (auto simp: simplePathIn_def dest: walk_subset)
    then show "q \<in> ?W" using last_in_set by blast
  qed
  have sub2: "?W \<subseteq> fst ` set ?T"
  proof
    fix q assume "q \<in> ?W"
    with g(4) exW obtain ps where ps: "simplePathIn ?W ex q ps" unfolding treeSet_def by blast
    then have w: "walk ?W ps" "ps \<noteq> []" "hd ps = ex" "last ps = q" by (auto simp: simplePathIn_def)
    from closed_walk[OF g(2) b(4) w(1,2)] w(3) b(3) have "set ps \<subseteq> fst ` set ?T" by simp
    with w(2,4) show "q \<in> fst ` set ?T" using last_in_set by blast
  qed
  have cover: "fst ` set ?T = ?W" using sub1 sub2 by blast
  have lens: "\<forall>x\<in>set ?T. \<forall>ps. simplePathIn ?W ex (fst x) ps \<longrightarrow> length ps = snd x + 1"
  proof (intro ballI allI impI)
    fix x ps assume x: "x \<in> set ?T" and ps: "simplePathIn ?W ex (fst x) ps"
    from b(2) x obtain ps0 where ps0: "simplePathIn ?W ex (fst x) ps0" "length ps0 = snd x + 1"
      by blast
    have "fst x \<in> ?W" using x sub1 by blast
    with g(4) exW have "\<exists>!p. simplePathIn ?W ex (fst x) p" unfolding treeSet_def by blast
    with ps ps0(1) have "ps = ps0" by blast
    with ps0(2) show "length ps = snd x + 1" by simp
  qed
  from b(5) obtain rest where T: "?T = (ex, 0) # rest" by blast
  have st: "?st = fst (firstMax (ex, 0) rest)"
    unfolding computeFarthestPosition_refines T by simp
  from firstMax_props[of rest "(ex, 0)"] obtain i where i: "i \<le> length rest"
    "firstMax (ex, 0) rest = ((ex, 0) # rest) ! i"
    "\<forall>j\<le>length rest. snd (((ex, 0) # rest) ! j) \<le> snd (((ex, 0) # rest) ! i)"
    "\<forall>j<i. snd (((ex, 0) # rest) ! j) < snd (((ex, 0) # rest) ! i)"
    by blast
  have il: "i < length ?T" using i(1) T by simp
  have sti: "fst (?T ! i) = ?st" using st i(2) T by simp
  have mx: "\<forall>j<length ?T. snd (?T ! j) \<le> snd (?T ! i)" using i(3) T by simp
  have fr: "\<forall>j<i. snd (?T ! j) < snd (?T ! i)" using i(4) T by simp
  have idx: "\<exists>i<length ?T. fst (?T ! i) = ?st
            \<and> (\<forall>j<length ?T. snd (?T ! j) \<le> snd (?T ! i))
            \<and> (\<forall>j<i. snd (?T ! j) < snd (?T ! i))"
    using il sti mx fr by blast
  have stT: "?T ! i \<in> set ?T" using il by simp
  then have stW: "?st \<in> ?W" using sti cover by (metis imageI)
  then have wst: "walkableCell g2 ?st" by (simp add: walkSet_def)
  have far: "\<forall>q ps ps'. simplePathIn ?W ex q ps \<and> simplePathIn ?W ex ?st ps'
            \<longrightarrow> length ps \<le> length ps'"
  proof (intro allI impI)
    fix q ps ps' assume a: "simplePathIn ?W ex q ps \<and> simplePathIn ?W ex ?st ps'"
    then have "ps \<noteq> []" "last ps = q" "set ps \<subseteq> ?W"
      by (auto simp: simplePathIn_def dest: walk_subset)
    then have "q \<in> ?W" using last_in_set by blast
    with cover have "q \<in> fst ` set ?T" by simp
    then obtain x where x: "x \<in> set ?T" "fst x = q" by blast
    then obtain j where j: "j < length ?T" "?T ! j = x" by (auto simp: in_set_conv_nth)
    have "length ps = snd x + 1" using lens x a by blast
    moreover have "length ps' = snd (?T ! i) + 1" using lens stT sti a by metis
    moreover have "snd x \<le> snd (?T ! i)" using mx j by blast
    ultimately show "length ps \<le> length ps'" by simp
  qed
  have "generateMaze sz r = Some (Inr ?m)
     \<and> ?T = bfsDiscovery (mgrid ?m) (mexit ?m)
     \<and> distinct (map fst ?T) \<and> fst ` set ?T = walkSet (mgrid ?m)
     \<and> (\<forall>x\<in>set ?T. \<forall>ps. simplePathIn (walkSet (mgrid ?m)) (mexit ?m) (fst x) ps
            \<longrightarrow> length ps = snd x + 1)
     \<and> (\<exists>i<length ?T. fst (?T ! i) = mstart ?m
            \<and> (\<forall>j<length ?T. snd (?T ! j) \<le> snd (?T ! i))
            \<and> (\<forall>j<i. snd (?T ! j) < snd (?T ! i)))
     \<and> walkableCell (mgrid ?m) (mstart ?m)
     \<and> (\<forall>q ps ps'. simplePathIn (walkSet (mgrid ?m)) (mexit ?m) q ps
                    \<and> simplePathIn (walkSet (mgrid ?m)) (mexit ?m) (mstart ?m) ps'
            \<longrightarrow> length ps \<le> length ps')"
    using g(1) b(1) cover lens idx wst far by simp
  then show ?thesis by blast
qed

text \<open>The start theorem for size 1 and the oracle that always draws 0.\<close>

theorem start_is_farthest_witness:
  "\<exists>m T. generateMaze 1 (\<lambda>_. 0, 0) = Some (Inr m)
     \<and> T = bfsDiscovery (mgrid m) (mexit m)
     \<and> distinct (map fst T) \<and> fst ` set T = walkSet (mgrid m)
     \<and> (\<forall>x\<in>set T. \<forall>ps. simplePathIn (walkSet (mgrid m)) (mexit m) (fst x) ps
            \<longrightarrow> length ps = snd x + 1)
     \<and> (\<exists>i<length T. fst (T ! i) = mstart m
            \<and> (\<forall>j<length T. snd (T ! j) \<le> snd (T ! i))
            \<and> (\<forall>j<i. snd (T ! j) < snd (T ! i)))
     \<and> walkableCell (mgrid m) (mstart m)
     \<and> (\<forall>q ps ps'. simplePathIn (walkSet (mgrid m)) (mexit m) q ps
                    \<and> simplePathIn (walkSet (mgrid m)) (mexit m) (mstart m) ps'
            \<longrightarrow> length ps \<le> length ps')"
proof -
  have "(1::int) \<le> 1" by simp
  from start_is_farthest[OF this, of "(\<lambda>_. 0, 0)"] show ?thesis .
qed

lemma bfsDiscovery_size2:
  "bfsDiscovery [[0, 0, 0, 0, 0], [0, 1, 0, 1, 0], [0, 1, 0, 1, 0], [0, 1, 1, 1, 2], [0, 0, 0, 0, 0]]
                \<lparr>px = 4, py = 3\<rparr>
     = [(\<lparr>px = 4, py = 3\<rparr>, 0), (\<lparr>px = 3, py = 3\<rparr>, 1), (\<lparr>px = 3, py = 2\<rparr>, 2),
        (\<lparr>px = 2, py = 3\<rparr>, 2), (\<lparr>px = 3, py = 1\<rparr>, 3), (\<lparr>px = 1, py = 3\<rparr>, 3),
        (\<lparr>px = 1, py = 2\<rparr>, 4), (\<lparr>px = 1, py = 1\<rparr>, 5)]"
  by code_simp

lemma generateMaze_size2:
  "generateMaze 2 (\<lambda>i. i * 7 + 3, 0)
     = Some (Inr \<lparr>mgrid = [[0, 0, 0, 0, 0], [0, 1, 0, 1, 0], [0, 1, 0, 1, 0], [0, 1, 1, 1, 2],
                           [0, 0, 0, 0, 0]],
                  mwidth = 5, mheight = 5, mstart = \<lparr>px = 1, py = 1\<rparr>,
                  mexit = \<lparr>px = 4, py = 3\<rparr>\<rparr>)"
  by code_simp

end
